theory Spec2Isabelle
  imports Main "HOL-Library.Sublist" "HOL-Library.AList"
begin

section \<open>filesystem.h: configuration, error codes and data\<close>

text \<open>
  The configuration macros of the header with their default values:
  \<^verbatim>\<open>FS_MAX_PATH\<close> (256), \<^verbatim>\<open>FS_PATH_SEP\<close> (";") and \<^verbatim>\<open>FS_PATH_MARK\<close> ("?").
\<close>

definition FS_MAX_PATH :: nat where
  "FS_MAX_PATH = 256"

definition FS_PATH_SEP :: string where
  "FS_PATH_SEP = '';''"

definition FS_PATH_MARK :: string where
  "FS_PATH_MARK = ''?''"

text \<open>The anonymous enum of error codes; \<^verbatim>\<open>if (err)\<close> in C is a test against \<open>FS_ESUCCESS\<close>.\<close>

datatype fs_err =
    FS_ESUCCESS
  | FS_EFAILURE
  | FS_ETOOLONG
  | FS_ENOWRITEDIR
  | FS_EWRITEFAIL
  | FS_EMKDIRFAIL
  | FS_ENOSEARCHPATH
  | FS_EREMOVE

datatype fs_file_type =
    FS_FILETYPE_NONE
  | FS_FILETYPE_REG
  | FS_FILETYPE_DIR
  | FS_FILETYPE_SYM

record fs_info =
  info_type :: fs_file_type
  info_size :: nat
  info_modtime :: int

record fs_write_desc =
  data_desc :: "char list"
  size_desc :: nat

text \<open>
  A C function that writes through a pointer into a fixed array either returns or performs
  a write outside the array (undefined behaviour).  The second outcome is a value of the
  model, so that memory safety is a statement about the function's result.
\<close>

datatype 'a run = OutOfBounds | Done 'a

section \<open>The C library string functions used by the header\<close>

text \<open>
  \<^verbatim>\<open>strstr(s, p)\<close>: offset of the first occurrence of \<open>p\<close> in \<open>s\<close>, \<open>None\<close> for
  \<^verbatim>\<open>NULL\<close>.  \<^verbatim>\<open>strrchr(s, c)\<close>: offset of the last occurrence of \<open>c\<close>.
\<close>

fun strstr :: "string \<Rightarrow> string \<Rightarrow> nat option" where
  "strstr [] p = (if p = [] then Some 0 else None)"
| "strstr (c # s) p = (if prefix p (c # s) then Some 0 else map_option Suc (strstr s p))"

fun strrchr :: "string \<Rightarrow> char \<Rightarrow> nat option" where
  "strrchr [] c = None"
| "strrchr (x # xs) c =
     (case strrchr xs c of
        Some i \<Rightarrow> Some (Suc i)
      | None \<Rightarrow> if x = c then Some 0 else None)"

section \<open>Template engine\<close>

text \<open>
  \<^verbatim>\<open>_fs_get_template(path, buf)\<close>: skips separators, returns \<^verbatim>\<open>NULL\<close> at the end of the
  string, otherwise copies the text up to the next separator into \<open>buf\<close> and returns the
  pointer to the rest.  The pair is (contents of \<open>buf\<close>, rest).  The template is a substring
  of the search path, whose array has the capacity of \<open>buf\<close>.
\<close>

definition fs_get_template :: "string \<Rightarrow> (string \<times> string) option" where
  "fs_get_template path =
     (let p = dropWhile (\<lambda>c. c = hd FS_PATH_SEP) path in
      if p = [] then None
      else Some (takeWhile (\<lambda>c. c \<noteq> hd FS_PATH_SEP) p, dropWhile (\<lambda>c. c \<noteq> hd FS_PATH_SEP) p))"

text \<open>
  The macro \<^verbatim>\<open>CONCAT(b, n, s, l)\<close> of \<^verbatim>\<open>_fs_concat_path\<close>: nothing when \<open>l \<le> 0\<close>, otherwise
  \<^verbatim>\<open>memcpy(&b[n], s, l); n += l\<close>.  The buffer is modelled by the \<open>n\<close> bytes written so
  far (\<open>n = length b\<close>); the array has \<open>FS_MAX_PATH\<close> bytes, so the copy is in bounds exactly
  when \<open>n + l \<le> FS_MAX_PATH\<close>.  The macro itself makes no such test.
\<close>

definition CONCAT :: "string \<Rightarrow> string \<Rightarrow> string run" where
  "CONCAT b s =
     (if length s \<le> 0 then Done b
      else if length b + length s \<le> FS_MAX_PATH then Done (b @ s)
      else OutOfBounds)"

lemma strstr_bound: "strstr s p = Some i \<Longrightarrow> i + length p \<le> length s"
proof (induction s arbitrary: i)
  case Nil
  then show ?case by (simp split: if_splits)
next
  case (Cons c s)
  show ?case
  proof (cases "prefix p (c # s)")
    case True
    with Cons.prems prefix_length_le [of p "c # s"] show ?thesis by simp
  next
    case False
    with Cons.prems obtain j where "strstr s p = Some j" and "i = Suc j"
      by auto
    with Cons.IH show ?thesis by simp
  qed
qed

text \<open>
  The loop of \<^verbatim>\<open>_fs_concat_path\<close> (marked \<^verbatim>\<open>/* gsub */\<close> in the source): \<open>buf\<close> holds the
  bytes written so far, \<open>s\<close> is the rest of the template, \<open>r\<close> the file name.  After the
  loop the terminator is stored at \<open>buf[n]\<close>.
\<close>

function gsub_loop :: "string \<Rightarrow> string \<Rightarrow> string \<Rightarrow> (fs_err \<times> string) run" where
  "gsub_loop buf s r =
     (case strstr s FS_PATH_MARK of
        None \<Rightarrow> if length buf < FS_MAX_PATH then Done (FS_ESUCCESS, buf) else OutOfBounds
      | Some i \<Rightarrow>
          (case CONCAT buf (take i s) of
             OutOfBounds \<Rightarrow> OutOfBounds
           | Done b1 \<Rightarrow>
               (case CONCAT b1 r of
                  OutOfBounds \<Rightarrow> OutOfBounds
                | Done b2 \<Rightarrow>
                    if length b2 \<ge> FS_MAX_PATH then Done (FS_ETOOLONG, b2)
                    else gsub_loop b2 (drop (i + length FS_PATH_MARK) s) r)))"
  by pat_completeness auto
termination
proof (relation "measure (\<lambda>(buf, s, r). length s)")
  show "wf (measure (\<lambda>(buf, s, r). length s))"
    by simp
next
  fix buf s r :: string and i :: nat and b1 b2 :: string
  assume "strstr s FS_PATH_MARK = Some i"
  then have "i + length FS_PATH_MARK \<le> length s"
    by (rule strstr_bound)
  then show "((b2, drop (i + length FS_PATH_MARK) s, r), (buf, s, r))
      \<in> measure (\<lambda>(buf, s, r). length s)"
    by (simp add: FS_PATH_MARK_def)
qed

declare gsub_loop.simps [simp del]

definition fs_concat_path :: "string \<Rightarrow> string \<Rightarrow> (fs_err \<times> string) run" where
  "fs_concat_path path filename = gsub_loop [] path filename"

section \<open>The backing filesystem\<close>

text \<open>
  The operating system calls (\<^verbatim>\<open>stat\<close>, \<^verbatim>\<open>mkdir\<close>, \<^verbatim>\<open>remove\<close>, \<^verbatim>\<open>fopen\<close>, \<^verbatim>\<open>fwrite\<close>,
  \<^verbatim>\<open>fread\<close>, \<^verbatim>\<open>fclose\<close>, \<^verbatim>\<open>malloc\<close>) are outside the header.  They are modelled by a
  small POSIX-like world: a table from canonical absolute paths (lists of names, the root
  is the empty list) to nodes, a working directory, a clock, the open streams and the free
  heap.  There are no symbolic links and no permissions, and the disk is never full.
\<close>

datatype node = Reg "char list" int | Dir int

type_synonym cpath = "string list"

type_synonym FILE = "cpath \<times> string"

datatype file_mode = S_IFREG | S_IFDIR | S_IFLNK

record stat =
  st_mode :: file_mode
  st_size :: nat
  st_mtime :: int

record world =
  nodes :: "(cpath \<times> node) list"
  cwd :: cpath
  now :: int
  open_files :: "FILE list"
  heap_free :: nat

definition node_at :: "world \<Rightarrow> cpath \<Rightarrow> node option" where
  "node_at w p = (if p = [] then Some (Dir 0) else map_of (nodes w) p)"

definition is_dir :: "world \<Rightarrow> cpath \<Rightarrow> bool" where
  "is_dir w p = (case node_at w p of Some (Dir t) \<Rightarrow> True | Some (Reg d t) \<Rightarrow> False | None \<Rightarrow> False)"

text \<open>The pieces of a string between the occurrences of a character, empty pieces included.\<close>

fun split_on :: "char \<Rightarrow> string \<Rightarrow> string list" where
  "split_on c [] = [[]]"
| "split_on c (x # xs) =
     (if x = c then [] # split_on c xs
      else (case split_on c xs of
              [] \<Rightarrow> [[x]]
            | y # ys \<Rightarrow> (x # y) # ys))"

text \<open>The names between the slashes of a path.\<close>

definition components :: "string \<Rightarrow> string list" where
  "components path = split_on CHR ''/'' path"

definition step :: "cpath \<Rightarrow> string \<Rightarrow> cpath" where
  "step cur c =
     (if c = [] \<or> c = ''.'' then cur
      else if c = ''..'' then butlast cur
      else cur @ [c])"

text \<open>
  Path resolution: every name is looked up in a directory that exists; the node the last
  name leads to need not exist.  The empty path does not resolve.
\<close>

fun walk :: "world \<Rightarrow> cpath \<Rightarrow> string list \<Rightarrow> cpath option" where
  "walk w cur [] = Some cur"
| "walk w cur (c # cs) = (if is_dir w cur then walk w (step cur c) cs else None)"

definition os_resolve :: "world \<Rightarrow> string \<Rightarrow> cpath option" where
  "os_resolve w path =
     (if path = [] then None
      else walk w (if hd path = CHR ''/'' then [] else cwd w) (components path))"

definition dir_size :: nat where
  "dir_size = 4096"

fun stat_of :: "node \<Rightarrow> stat" where
  "stat_of (Reg d t) = \<lparr>st_mode = S_IFREG, st_size = length d, st_mtime = t\<rparr>"
| "stat_of (Dir t) = \<lparr>st_mode = S_IFDIR, st_size = dir_size, st_mtime = t\<rparr>"

text \<open>\<^verbatim>\<open>stat(path, &st) == 0\<close> is \<open>Some st\<close>.\<close>

definition os_stat :: "world \<Rightarrow> string \<Rightarrow> stat option" where
  "os_stat w path =
     (case os_resolve w path of
        None \<Rightarrow> None
      | Some p \<Rightarrow> map_option stat_of (node_at w p))"

text \<open>\<^verbatim>\<open>mkdir\<close> returns 0 or -1: the parent must be a directory and the name must be free.\<close>

definition os_mkdir :: "world \<Rightarrow> string \<Rightarrow> int \<times> world" where
  "os_mkdir w path =
     (case os_resolve w path of
        None \<Rightarrow> (- 1, w)
      | Some p \<Rightarrow>
          if node_at w p = None \<and> is_dir w (butlast p)
          then (0, w\<lparr>nodes := AList.update p (Dir (now w)) (nodes w)\<rparr>)
          else (- 1, w))"

definition has_children :: "world \<Rightarrow> cpath \<Rightarrow> bool" where
  "has_children w p = (filter (\<lambda>q. q \<noteq> [] \<and> butlast q = p) (map fst (nodes w)) \<noteq> [])"

text \<open>The last non-empty name of a path, empty when there is none.\<close>

definition last_name :: "string \<Rightarrow> string" where
  "last_name path =
     (case filter (\<lambda>c. c \<noteq> []) (components path) of
        [] \<Rightarrow> []
      | n # ns \<Rightarrow> last (n # ns))"

text \<open>
  \<^verbatim>\<open>remove\<close> returns 0 or not: it deletes a file or an empty directory, and refuses a path
  whose last name is \<^verbatim>\<open>.\<close> or \<^verbatim>\<open>..\<close>.
\<close>

definition os_remove :: "world \<Rightarrow> string \<Rightarrow> int \<times> world" where
  "os_remove w path =
     (case os_resolve w path of
        None \<Rightarrow> (- 1, w)
      | Some p \<Rightarrow>
          if p = [] \<or> last_name path = ''.'' \<or> last_name path = ''..'' \<or>
             node_at w p = None \<or> (is_dir w p \<and> has_children w p)
          then (- 1, w)
          else (0, w\<lparr>nodes := AList.delete p (nodes w)\<rparr>))"

definition FS_MREAD :: string where
  "FS_MREAD = ''rb''"

definition FS_MWRITE :: string where
  "FS_MWRITE = ''w''"

definition FS_MAPPEND :: string where
  "FS_MAPPEND = ''a''"

text \<open>
  \<^verbatim>\<open>fopen\<close>: \<open>None\<close> is \<^verbatim>\<open>NULL\<close>.  Reading opens a regular file, and also a directory
  (whose stream then yields no bytes).  Writing truncates or creates, appending keeps the
  contents or creates; both refuse a directory and need the parent directory.  A
  successful open adds the stream to the open streams.
\<close>

definition os_fopen :: "world \<Rightarrow> string \<Rightarrow> string \<Rightarrow> FILE option \<times> world" where
  "os_fopen w path mode =
     (case os_resolve w path of
        None \<Rightarrow> (None, w)
      | Some p \<Rightarrow>
          (case node_at w p of
             Some (Dir t) \<Rightarrow>
               if mode = FS_MREAD
               then (Some (p, mode), w\<lparr>open_files := (p, mode) # open_files w\<rparr>)
               else (None, w)
           | Some (Reg d t) \<Rightarrow>
               (Some (p, mode),
                w\<lparr>nodes := (if mode = FS_MWRITE then AList.update p (Reg [] (now w)) (nodes w)
                            else nodes w),
                  open_files := (p, mode) # open_files w\<rparr>)
           | None \<Rightarrow>
               if mode \<noteq> FS_MREAD \<and> is_dir w (butlast p)
               then (Some (p, mode),
                     w\<lparr>nodes := AList.update p (Reg [] (now w)) (nodes w),
                       open_files := (p, mode) # open_files w\<rparr>)
               else (None, w)))"

text \<open>
  \<^verbatim>\<open>fwrite(bytes, 1, n, fp)\<close> on a stream opened by this call sequence: the bytes go to the
  end of the file; the result is the number of bytes written.
\<close>

definition os_fwrite :: "world \<Rightarrow> FILE \<Rightarrow> char list \<Rightarrow> nat \<times> world" where
  "os_fwrite w fp bytes =
     (case node_at w (fst fp) of
        Some (Reg d t) \<Rightarrow>
          (length bytes, w\<lparr>nodes := AList.update (fst fp) (Reg (d @ bytes) (now w)) (nodes w)\<rparr>)
      | Some (Dir t) \<Rightarrow> (0, w)
      | None \<Rightarrow> (0, w))"

text \<open>\<^verbatim>\<open>fread(b, 1, n, fp)\<close> on a fresh stream: the first \<open>n\<close> bytes of the file.\<close>

definition os_fread :: "world \<Rightarrow> FILE \<Rightarrow> nat \<Rightarrow> char list" where
  "os_fread w fp n =
     (case node_at w (fst fp) of
        Some (Reg d t) \<Rightarrow> take n d
      | Some (Dir t) \<Rightarrow> []
      | None \<Rightarrow> [])"

definition os_fclose :: "world \<Rightarrow> FILE \<Rightarrow> world" where
  "os_fclose w fp = w\<lparr>open_files := remove1 fp (open_files w)\<rparr>"

text \<open>\<^verbatim>\<open>FS_MALLOC(s)\<close>: \<open>False\<close> is \<^verbatim>\<open>NULL\<close>, returned when the heap has fewer than \<open>s\<close> bytes.\<close>

definition FS_MALLOC :: "world \<Rightarrow> nat \<Rightarrow> bool \<times> world" where
  "FS_MALLOC w s =
     (if s \<le> heap_free w then (True, w\<lparr>heap_free := heap_free w - s\<rparr>) else (False, w))"

text \<open>
  The conversions of \<^verbatim>\<open>int wsize = fwrite(...)\<close> and \<^verbatim>\<open>wsize == desc->size\<close> on a platform
  with 32-bit \<^verbatim>\<open>int\<close> and 64-bit \<^verbatim>\<open>size_t\<close>.
\<close>

definition int_of_size_t :: "nat \<Rightarrow> int" where
  "int_of_size_t n =
     (if n mod 2 ^ 32 < 2 ^ 31 then int (n mod 2 ^ 32) else int (n mod 2 ^ 32) - 2 ^ 32)"

definition size_t_of_int :: "int \<Rightarrow> nat" where
  "size_t_of_int i = nat (i mod 2 ^ 64)"

section \<open>The operations of the header\<close>

text \<open>The two global arrays \<^verbatim>\<open>_fs_search_path\<close> and \<^verbatim>\<open>_fs_write_dir\<close>, and the world.\<close>

record state =
  fs_search_path :: string
  fs_write_dir :: string
  os :: world

definition S_ISREG :: "file_mode \<Rightarrow> bool" where
  "S_ISREG m = (m = S_IFREG)"

definition S_ISDIR :: "file_mode \<Rightarrow> bool" where
  "S_ISDIR m = (m = S_IFDIR)"

definition S_ISLNK :: "file_mode \<Rightarrow> bool" where
  "S_ISLNK m = (m = S_IFLNK)"

lemma fs_get_template_shorter:
  "fs_get_template path = Some (str, rest) \<Longrightarrow> length rest < length path"
proof -
  assume a: "fs_get_template path = Some (str, rest)"
  define p where "p = dropWhile (\<lambda>c. c = hd FS_PATH_SEP) path"
  from a have ne: "p \<noteq> []" and r: "rest = dropWhile (\<lambda>c. c \<noteq> hd FS_PATH_SEP) p"
    by (auto simp: fs_get_template_def p_def Let_def split: if_splits)
  from ne have "\<not> (hd p = hd FS_PATH_SEP)"
    unfolding p_def by (metis (mono_tags, lifting) hd_dropWhile)
  with ne have "length (dropWhile (\<lambda>c. c \<noteq> hd FS_PATH_SEP) p) < length p"
    by (cases p) (auto simp: less_Suc_eq_le length_dropWhile_le)
  moreover have "length p \<le> length path"
    unfolding p_def by (rule length_dropWhile_le)
  ultimately show ?thesis using r by simp
qed

text \<open>
  The loop of \<^verbatim>\<open>_fs_check_search_path\<close>.  \<open>Inr (buf, st)\<close> is the return of
  \<open>FS_ESUCCESS\<close> with the candidate in \<open>buf\<close> and the result of \<^verbatim>\<open>stat\<close>; \<open>Inl err\<close> is
  the return of the error \<open>err\<close>.
\<close>

function search_loop :: "world \<Rightarrow> string \<Rightarrow> string \<Rightarrow> (fs_err + string \<times> stat) run" where
  "search_loop w path filename =
     (case fs_get_template path of
        None \<Rightarrow> Done (Inl FS_EFAILURE)
      | Some (str, rest) \<Rightarrow>
          (case fs_concat_path str filename of
             OutOfBounds \<Rightarrow> OutOfBounds
           | Done (err, buf) \<Rightarrow>
               if err \<noteq> FS_ESUCCESS then Done (Inl err)
               else (case os_stat w buf of
                       Some st \<Rightarrow> Done (Inr (buf, st))
                     | None \<Rightarrow> search_loop w rest filename)))"
  by pat_completeness auto
termination
  by (relation "measure (\<lambda>(w, path, filename). length path)")
     (auto dest: fs_get_template_shorter)

declare search_loop.simps [simp del]

definition fs_check_search_path :: "state \<Rightarrow> string \<Rightarrow> (fs_err + string \<times> stat) run" where
  "fs_check_search_path st filename =
     (if fs_search_path st = [] then Done (Inl FS_ENOSEARCHPATH)
      else search_loop (os st) (fs_search_path st) filename)"

definition type_of_mode :: "file_mode \<Rightarrow> fs_file_type" where
  "type_of_mode m =
     (if S_ISREG m then FS_FILETYPE_REG
      else if S_ISDIR m then FS_FILETYPE_DIR
      else if S_ISLNK m then FS_FILETYPE_SYM
      else FS_FILETYPE_NONE)"

definition fs_get_type :: "state \<Rightarrow> string \<Rightarrow> fs_file_type run" where
  "fs_get_type st filename =
     (case fs_check_search_path st filename of
        OutOfBounds \<Rightarrow> OutOfBounds
      | Done (Inl err) \<Rightarrow> Done FS_FILETYPE_NONE
      | Done (Inr (path, fstat)) \<Rightarrow> Done (type_of_mode (st_mode fstat)))"

text \<open>
  \<^verbatim>\<open>_fs_make_dirs(path)\<close>: cuts the path at its last slash, recurses on the front part,
  restores the slash and calls \<^verbatim>\<open>mkdir\<close> on the path.  The result of the recursive call
  is dropped.
\<close>

lemma strrchr_bound: "strrchr s c = Some i \<Longrightarrow> i < length s"
  by (induction s arbitrary: i) (auto split: option.splits if_splits)

function fs_make_dirs :: "world \<Rightarrow> string \<Rightarrow> fs_err \<times> world" where
  "fs_make_dirs w path =
     (let w1 = (case strrchr path CHR ''/'' of
                  None \<Rightarrow> w
                | Some i \<Rightarrow> snd (fs_make_dirs w (take i path)))
      in (if fst (os_mkdir w1 path) = - 1 then FS_EMKDIRFAIL else FS_ESUCCESS,
          snd (os_mkdir w1 path)))"
  by pat_completeness auto
termination
  by (relation "measure (\<lambda>(w, path). length path)") (auto dest: strrchr_bound)

declare fs_make_dirs.simps [simp del]

text \<open>The macro \<^verbatim>\<open>_FS_CREATE_DIR_TREE()\<close> applied to \<open>buf\<close>.\<close>

definition FS_CREATE_DIR_TREE :: "world \<Rightarrow> string \<Rightarrow> world" where
  "FS_CREATE_DIR_TREE w buf =
     (case strrchr buf CHR ''/'' of
        None \<Rightarrow> w
      | Some i \<Rightarrow> snd (fs_make_dirs w (take i buf)))"

definition fs_get_search_path :: "state \<Rightarrow> string" where
  "fs_get_search_path st = fs_search_path st"

definition fs_set_search_path :: "state \<Rightarrow> string \<Rightarrow> fs_err \<times> state" where
  "fs_set_search_path st path =
     (if length path \<ge> FS_MAX_PATH then (FS_ETOOLONG, st)
      else (FS_ESUCCESS, st\<lparr>fs_search_path := path\<rparr>))"

definition fs_get_write_dir :: "state \<Rightarrow> string" where
  "fs_get_write_dir st = fs_write_dir st"

definition fs_set_write_dir :: "state \<Rightarrow> string \<Rightarrow> fs_err \<times> state" where
  "fs_set_write_dir st path =
     (if length path \<ge> FS_MAX_PATH then (FS_ETOOLONG, st)
      else (FS_ESUCCESS, st\<lparr>fs_write_dir := path\<rparr>))"

definition fs_exists :: "state \<Rightarrow> string \<Rightarrow> fs_err run" where
  "fs_exists st path =
     (if fs_search_path st = [] then Done FS_ENOSEARCHPATH
      else (case fs_get_type st path of
              OutOfBounds \<Rightarrow> OutOfBounds
            | Done t \<Rightarrow> Done (if t \<noteq> FS_FILETYPE_NONE then FS_ESUCCESS else FS_EFAILURE)))"

text \<open>
  \<^verbatim>\<open>fs_read(name, &size)\<close>: the first component of the result is the returned block
  (\<open>None\<close> for \<^verbatim>\<open>NULL\<close>), the second the value stored in \<^verbatim>\<open>*size\<close> (\<open>None\<close> when the
  function returns before the store).  The block has \<^verbatim>\<open>*size\<close> bytes, of which \<^verbatim>\<open>fread\<close>
  fills the bytes it reads.
\<close>

definition fs_read :: "state \<Rightarrow> string \<Rightarrow> ((char list option \<times> nat option) \<times> state) run" where
  "fs_read st name =
     (case fs_check_search_path st name of
        OutOfBounds \<Rightarrow> OutOfBounds
      | Done (Inl err) \<Rightarrow> Done ((None, None), st)
      | Done (Inr (path, fstat)) \<Rightarrow>
          (case os_fopen (os st) path FS_MREAD of
             (None, w1) \<Rightarrow> Done ((None, None), st\<lparr>os := w1\<rparr>)
           | (Some fp, w1) \<Rightarrow>
               (case FS_MALLOC w1 (st_size fstat) of
                  (False, w2) \<Rightarrow> Done ((None, Some (st_size fstat)), st\<lparr>os := w2\<rparr>)
                | (True, w2) \<Rightarrow>
                    Done ((Some (os_fread w2 fp (st_size fstat)), Some (st_size fstat)),
                          st\<lparr>os := os_fclose w2 fp\<rparr>))))"

text \<open>The traversal token tested by \<^verbatim>\<open>strstr(path, "..")\<close>.\<close>

definition dotdot :: string where
  "dotdot = ''..''"

definition fs_write_to_file_ext :: "world \<Rightarrow> string \<Rightarrow> string \<Rightarrow> fs_write_desc \<Rightarrow> fs_err \<times> world" where
  "fs_write_to_file_ext w path mode desc =
     (if strstr path dotdot \<noteq> None then (FS_EWRITEFAIL, w)
      else (case os_fopen w path mode of
              (None, w1) \<Rightarrow> (FS_EWRITEFAIL, w1)
            | (Some fp, w1) \<Rightarrow>
                (let wsize = int_of_size_t (fst (os_fwrite w1 fp (take (size_desc desc) (data_desc desc))));
                     w2 = snd (os_fwrite w1 fp (take (size_desc desc) (data_desc desc)));
                     w3 = os_fclose w2 fp
                 in (if size_t_of_int wsize = size_desc desc then FS_ESUCCESS else FS_EWRITEFAIL, w3))))"

definition fs_write :: "state \<Rightarrow> string \<Rightarrow> fs_write_desc \<Rightarrow> (fs_err \<times> state) run" where
  "fs_write st name desc =
     (if fs_write_dir st = [] then Done (FS_ENOWRITEDIR, st)
      else (case fs_concat_path (fs_write_dir st) name of
              OutOfBounds \<Rightarrow> OutOfBounds
            | Done (err, buf) \<Rightarrow>
                if err \<noteq> FS_ESUCCESS then Done (err, st)
                else (let w1 = FS_CREATE_DIR_TREE (os st) buf;
                          r = fs_write_to_file_ext w1 buf FS_MWRITE desc
                      in Done (fst r, st\<lparr>os := snd r\<rparr>))))"

definition fs_append :: "state \<Rightarrow> string \<Rightarrow> fs_write_desc \<Rightarrow> (fs_err \<times> state) run" where
  "fs_append st name desc =
     (if fs_write_dir st = [] then Done (FS_ENOWRITEDIR, st)
      else (case fs_concat_path (fs_write_dir st) name of
              OutOfBounds \<Rightarrow> OutOfBounds
            | Done (err, buf) \<Rightarrow>
                if err \<noteq> FS_ESUCCESS then Done (err, st)
                else (let w1 = FS_CREATE_DIR_TREE (os st) buf;
                          r = fs_write_to_file_ext w1 buf FS_MAPPEND desc
                      in Done (fst r, st\<lparr>os := snd r\<rparr>))))"

text \<open>\<^verbatim>\<open>fs_get_info(path, &info)\<close>: \<open>info\<close> is stored only on success.\<close>

definition fs_get_info :: "state \<Rightarrow> string \<Rightarrow> (fs_err \<times> fs_info option) run" where
  "fs_get_info st path =
     (if fs_search_path st = [] then Done (FS_ENOSEARCHPATH, None)
      else (case fs_check_search_path st path of
              OutOfBounds \<Rightarrow> OutOfBounds
            | Done (Inl err) \<Rightarrow> Done (err, None)
            | Done (Inr (buf, fstat)) \<Rightarrow>
                Done (FS_ESUCCESS,
                      Some \<lparr>info_type = type_of_mode (st_mode fstat),
                            info_size = st_size fstat,
                            info_modtime = st_mtime fstat\<rparr>)))"

definition fs_mkdir :: "state \<Rightarrow> string \<Rightarrow> (fs_err \<times> state) run" where
  "fs_mkdir st path =
     (if fs_write_dir st = [] then Done (FS_ENOWRITEDIR, st)
      else (case fs_concat_path (fs_write_dir st) path of
              OutOfBounds \<Rightarrow> OutOfBounds
            | Done (err, buf) \<Rightarrow>
                if err \<noteq> FS_ESUCCESS then Done (err, st)
                else (let r = fs_make_dirs (os st) buf
                      in Done (fst r, st\<lparr>os := snd r\<rparr>))))"

definition fs_delete :: "state \<Rightarrow> string \<Rightarrow> (fs_err \<times> state) run" where
  "fs_delete st name =
     (if fs_write_dir st = [] then Done (FS_ENOWRITEDIR, st)
      else (case fs_concat_path (fs_write_dir st) name of
              OutOfBounds \<Rightarrow> OutOfBounds
            | Done (err, buf) \<Rightarrow>
                if err \<noteq> FS_ESUCCESS then Done (err, st)
                else (let r = os_remove (os st) buf
                      in Done (if fst r \<noteq> 0 then FS_EREMOVE else FS_ESUCCESS, st\<lparr>os := snd r\<rparr>))))"

section \<open>Definitions for stating the properties\<close>

text \<open>
  The substitution as the documentation words it: every occurrence of the marker in the
  template is replaced by the name.
\<close>

definition gsub_spec :: "string \<Rightarrow> string \<Rightarrow> string" where
  "gsub_spec template name = concat (map (\<lambda>c. if c = hd FS_PATH_MARK then name else [c]) template)"

text \<open>The part of a template up to and including its last marker.\<close>

fun upto_last_mark :: "string \<Rightarrow> string" where
  "upto_last_mark [] = []"
| "upto_last_mark (c # cs) = (if hd FS_PATH_MARK \<in> set (c # cs) then c # upto_last_mark cs else [])"

text \<open>
  The resolution for reading as the specification words it: the templates are the non-empty
  pieces of the search path between semicolons, in order; the candidates are the paths
  the templates substitute to; the result is the first candidate that \<^verbatim>\<open>stat\<close> finds,
  with its metadata, and the not-found failure when there is none.
\<close>

definition templates_spec :: "string \<Rightarrow> string list" where
  "templates_spec path = filter (\<lambda>t. t \<noteq> []) (split_on (hd FS_PATH_SEP) path)"

definition candidates_spec :: "string list \<Rightarrow> string \<Rightarrow> string list" where
  "candidates_spec ts name =
     concat (map (\<lambda>t. case fs_concat_path t name of
                           OutOfBounds \<Rightarrow> []
                         | Done (err, c) \<Rightarrow> if err = FS_ESUCCESS then [c] else []) ts)"

fun first_existing_spec :: "world \<Rightarrow> string list \<Rightarrow> fs_err + string \<times> stat" where
  "first_existing_spec w [] = Inl FS_EFAILURE"
| "first_existing_spec w (c # cs) =
     (case os_stat w c of
        Some s \<Rightarrow> Inr (c, s)
      | None \<Rightarrow> first_existing_spec w cs)"

text \<open>
  A world is well formed when every node of the table lies in a directory of the table.
  One world grows into another when the only difference is that directories have been
  added at paths that were free.  The contents of a path are the bytes of the regular
  file there, and empty when there is none.
\<close>

definition wf_world :: "world \<Rightarrow> bool" where
  "wf_world w = list_all (\<lambda>q. q \<noteq> [] \<and> is_dir w (butlast q)) (map fst (nodes w))"

definition grows :: "world \<Rightarrow> world \<Rightarrow> bool" where
  "grows w w' \<longleftrightarrow>
     cwd w' = cwd w \<and> now w' = now w \<and> open_files w' = open_files w \<and>
     heap_free w' = heap_free w \<and>
     (\<forall>q. node_at w' q = node_at w q \<or> (node_at w q = None \<and> (\<exists>t. node_at w' q = Some (Dir t))))"

definition content :: "world \<Rightarrow> cpath \<Rightarrow> char list" where
  "content w p = (case node_at w p of Some (Reg d t) \<Rightarrow> d | Some (Dir t) \<Rightarrow> [] | None \<Rightarrow> [])"

text \<open>
  A plain name is a non-empty name without slash other than \<^verbatim>\<open>.\<close> and \<^verbatim>\<open>..\<close>.  The path
  of a directory \<open>d\<close> and names is \<open>d\<close> followed by a slash and a name for each name; a
  logical name of several segments is the segments joined by slashes.
\<close>

definition plain :: "string \<Rightarrow> bool" where
  "plain seg \<longleftrightarrow> seg \<noteq> [] \<and> CHR ''/'' \<notin> set seg \<and> seg \<noteq> ''.'' \<and> seg \<noteq> ''..''"

definition path_of :: "string \<Rightarrow> string list \<Rightarrow> string" where
  "path_of d segs = d @ concat (map (\<lambda>seg. CHR ''/'' # seg) segs)"

fun join :: "string list \<Rightarrow> string" where
  "join [] = []"
| "join (seg # segs) = seg @ concat (map (\<lambda>seg. CHR ''/'' # seg) segs)"

text \<open>
  The arguments of the calls of \<^verbatim>\<open>mkdir\<close> that \<^verbatim>\<open>_fs_make_dirs(path)\<close> makes, in the order
  of the calls: those of the recursive call on the front part, then the path itself.
\<close>

function mkdir_calls :: "string \<Rightarrow> string list" where
  "mkdir_calls path =
     (case strrchr path CHR ''/'' of
        None \<Rightarrow> []
      | Some i \<Rightarrow> mkdir_calls (take i path)) @ [path]"
  by pat_completeness auto
termination
  by (relation "measure length") (auto dest: strrchr_bound)

declare mkdir_calls.simps [simp del]

section \<open>Example worlds\<close>

text \<open>An empty world, and a world whose working directory is \<^verbatim>\<open>/home/box\<close>.\<close>

definition w_empty :: world where
  "w_empty = \<lparr>nodes = [], cwd = [], now = 0, open_files = [], heap_free = 0\<rparr>"

definition w_box :: world where
  "w_box = \<lparr>nodes = [([''home''], Dir 1), ([''home'', ''box''], Dir 1)],
            cwd = [''home'', ''box''], now = 7, open_files = [], heap_free = 1000\<rparr>"

definition s_box :: state where
  "s_box = \<lparr>fs_search_path = ''./?'', fs_write_dir = ''./?'', os = w_box\<rparr>"

text \<open>The same world with a file \<^verbatim>\<open>a.txt\<close> of five bytes and an exhausted heap.\<close>

definition s_full :: state where
  "s_full = \<lparr>fs_search_path = ''./?'', fs_write_dir = ''./?'',
     os = \<lparr>nodes = [([''home''], Dir 1), ([''home'', ''box''], Dir 1),
                    ([''home'', ''box'', ''a.txt''], Reg ''hello'' 7)],
            cwd = [''home'', ''box''], now = 7, open_files = [], heap_free = 0\<rparr>\<rparr>"

text \<open>
  A world with one file whose name has 250 bytes, searched through two templates, and the
  world of \<open>s_full\<close> searched through three.
\<close>

definition name250 :: string where
  "name250 = replicate 250 CHR ''a''"

definition s_long :: state where
  "s_long = \<lparr>fs_search_path = ''aaaaa/?;?'', fs_write_dir = ''./?'',
     os = \<lparr>nodes = [([name250], Reg [] 7)], cwd = [], now = 7, open_files = [],
            heap_free = 1000\<rparr>\<rparr>"

definition s_three :: state where
  "s_three = \<lparr>fs_search_path = ''x/?;./?;?'', fs_write_dir = ''./?'',
     os = \<lparr>nodes = [([''home''], Dir 1), ([''home'', ''box''], Dir 1),
                    ([''home'', ''box'', ''a.txt''], Reg ''hello'' 7)],
            cwd = [''home'', ''box''], now = 7, open_files = [], heap_free = 0\<rparr>\<rparr>"

text \<open>The world of \<open>s_box\<close> after \<^verbatim>\<open>hello\<close> has been written to \<^verbatim>\<open>a.txt\<close>.\<close>

definition s_hello :: state where
  "s_hello = s_box\<lparr>os := w_box\<lparr>nodes := [([''home''], Dir 1), ([''home'', ''box''], Dir 1),
                                        ([''home'', ''box'', ''a.txt''], Reg ''hello'' 7)]\<rparr>\<rparr>"

text \<open>The worlds after \<^verbatim>\<open> you\<close> has been appended to \<^verbatim>\<open>a.txt\<close>, and after \<^verbatim>\<open>hi\<close> has been written to it.\<close>

definition s_hello_you :: state where
  "s_hello_you = s_box\<lparr>os := w_box\<lparr>nodes := [([''home''], Dir 1), ([''home'', ''box''], Dir 1),
                                        ([''home'', ''box'', ''a.txt''], Reg ''hello you'' 7)]\<rparr>\<rparr>"

definition s_hi :: state where
  "s_hi = s_box\<lparr>os := w_box\<lparr>nodes := [([''home''], Dir 1), ([''home'', ''box''], Dir 1),
                                        ([''home'', ''box'', ''a.txt''], Reg ''hi'' 7)]\<rparr>\<rparr>"

text \<open>The world of \<open>s_box\<close> after \<^verbatim>\<open>a\<close>, \<^verbatim>\<open>a/b\<close> and \<^verbatim>\<open>a/b/c\<close> have been created.\<close>

definition s_abc :: state where
  "s_abc = s_box\<lparr>os := w_box\<lparr>nodes := [([''home''], Dir 1), ([''home'', ''box''], Dir 1),
     ([''home'', ''box'', ''a''], Dir 7), ([''home'', ''box'', ''a'', ''b''], Dir 7),
     ([''home'', ''box'', ''a'', ''b'', ''c''], Dir 7)]\<rparr>\<rparr>"

text \<open>
  The world of \<open>s_box\<close> searched through two templates, of which the second leads to the
  write directory, before and after \<^verbatim>\<open>hello\<close> has been written to \<^verbatim>\<open>a.txt\<close>.
\<close>

definition s_two :: state where
  "s_two = \<lparr>fs_search_path = ''x/?;?'', fs_write_dir = ''./?'', os = w_box\<rparr>"

definition s_two_hello :: state where
  "s_two_hello = s_two\<lparr>os := w_box\<lparr>nodes := [([''home''], Dir 1), ([''home'', ''box''], Dir 1),
                                        ([''home'', ''box'', ''a.txt''], Reg ''hello'' 7)]\<rparr>\<rparr>"

text \<open>The world of \<open>s_long\<close> with a first template that is one byte longer.\<close>

definition s_over :: state where
  "s_over = \<lparr>fs_search_path = ''aaaaaa/?;?'', fs_write_dir = ''./?'',
     os = \<lparr>nodes = [([name250], Reg [] 7)], cwd = [], now = 7, open_files = [],
            heap_free = 1000\<rparr>\<rparr>"

section \<open>What the substitution computes\<close>

lemmas os_defs = components_def os_resolve_def os_stat_def os_mkdir_def os_remove_def last_name_def os_fopen_def os_fwrite_def
  os_fread_def os_fclose_def FS_MALLOC_def node_at_def is_dir_def step_def has_children_def
  FS_MREAD_def FS_MWRITE_def FS_MAPPEND_def

lemmas cfg_defs = FS_MAX_PATH_def FS_PATH_MARK_def FS_PATH_SEP_def CONCAT_def dotdot_def
  fs_concat_path_def gsub_loop.simps

lemmas run_defs = fs_write_def fs_append_def fs_read_def fs_exists_def fs_get_type_def
  fs_check_search_path_def search_loop.simps fs_get_template_def type_of_mode_def
  S_ISREG_def S_ISDIR_def S_ISLNK_def fs_write_to_file_ext_def FS_CREATE_DIR_TREE_def
  fs_make_dirs.simps Let_def int_of_size_t_def size_t_of_int_def

lemma strstr_mark_None: "strstr s FS_PATH_MARK = None \<longleftrightarrow> hd FS_PATH_MARK \<notin> set s"
  by (induction s) (auto simp: FS_PATH_MARK_def)

lemma strstr_mark_Some:
  "strstr s FS_PATH_MARK = Some i \<Longrightarrow>
     s = take i s @ hd FS_PATH_MARK # drop (Suc i) s \<and> hd FS_PATH_MARK \<notin> set (take i s)"
proof (induction s arbitrary: i)
  case Nil
  then show ?case by (simp add: FS_PATH_MARK_def)
next
  case (Cons c s)
  show ?case
  proof (cases "c = hd FS_PATH_MARK")
    case True
    with Cons.prems show ?thesis by (simp add: FS_PATH_MARK_def)
  next
    case False
    with Cons.prems obtain j where j: "strstr s FS_PATH_MARK = Some j" "i = Suc j"
      by (auto simp: FS_PATH_MARK_def)
    from Cons.IH [OF j(1)] False j(2) show ?thesis by simp
  qed
qed

lemma upto_last_mark_none: "hd FS_PATH_MARK \<notin> set s \<Longrightarrow> upto_last_mark s = []"
  by (cases s) auto

lemma upto_last_mark_split:
  "hd FS_PATH_MARK \<notin> set pre \<Longrightarrow>
     upto_last_mark (pre @ hd FS_PATH_MARK # rest) = pre @ hd FS_PATH_MARK # upto_last_mark rest"
  by (induction pre) auto

lemma gsub_split:
  "hd FS_PATH_MARK \<notin> set pre \<Longrightarrow> gsub_spec (pre @ hd FS_PATH_MARK # rest) r = pre @ r @ gsub_spec rest r"
  by (induction pre) (auto simp: gsub_spec_def)

lemma gsub_loop_fits:
  "length (buf @ gsub_spec (upto_last_mark s) r) < FS_MAX_PATH \<Longrightarrow>
     gsub_loop buf s r = Done (FS_ESUCCESS, buf @ gsub_spec (upto_last_mark s) r)"
proof (induction buf s r rule: gsub_loop.induct)
  case (1 buf s r)
  show ?case
  proof (cases "strstr s FS_PATH_MARK")
    case None
    then have "upto_last_mark s = []"
      by (simp add: strstr_mark_None upto_last_mark_none)
    with None "1.prems" show ?thesis
      by (subst gsub_loop.simps) (simp add: gsub_spec_def)
  next
    case (Some i)
    define pre where "pre = take i s"
    define rest where "rest = drop (Suc i) s"
    from strstr_mark_Some [OF Some] have s: "s = pre @ hd FS_PATH_MARK # rest"
      and pre: "hd FS_PATH_MARK \<notin> set pre"
      by (simp_all add: pre_def rest_def)
    have u: "gsub_spec (upto_last_mark s) r = pre @ r @ gsub_spec (upto_last_mark rest) r"
      by (subst s) (simp add: upto_last_mark_split [OF pre] gsub_split [OF pre])
    have c1: "CONCAT buf pre = Done (buf @ pre)"
      using "1.prems" u by (simp add: CONCAT_def)
    have c2: "CONCAT (buf @ pre) r = Done (buf @ pre @ r)"
      using "1.prems" u by (simp add: CONCAT_def)
    have lt: "\<not> FS_MAX_PATH \<le> length (buf @ pre @ r)"
      using "1.prems" u by simp
    have d: "drop (i + length FS_PATH_MARK) s = rest"
      by (simp add: rest_def FS_PATH_MARK_def)
    have "gsub_loop (buf @ pre @ r) (drop (i + length FS_PATH_MARK) s) r =
        Done (FS_ESUCCESS,
          (buf @ pre @ r) @ gsub_spec (upto_last_mark (drop (i + length FS_PATH_MARK) s)) r)"
    proof (rule "1.IH" [OF Some])
      show "CONCAT buf (take i s) = Done (buf @ pre)" using c1 by (simp add: pre_def)
      show "CONCAT (buf @ pre) r = Done (buf @ pre @ r)" by (rule c2)
      show "\<not> FS_MAX_PATH \<le> length (buf @ pre @ r)" by (rule lt)
      show "length ((buf @ pre @ r) @ gsub_spec (upto_last_mark (drop (i + length FS_PATH_MARK) s)) r) < FS_MAX_PATH"
        using "1.prems" u d by simp
    qed
    then show ?thesis
      using Some c1 c2 lt d u
      by (subst gsub_loop.simps) (simp add: pre_def)
  qed
qed

lemma gsub_loop_over:
  "FS_MAX_PATH \<le> length (buf @ gsub_spec (upto_last_mark s) r) \<Longrightarrow> length buf < FS_MAX_PATH \<Longrightarrow>
     gsub_loop buf s r = OutOfBounds \<or>
     (\<exists>b. gsub_loop buf s r = Done (FS_ETOOLONG, b) \<and> length b = FS_MAX_PATH)"
proof (induction buf s r rule: gsub_loop.induct)
  case (1 buf s r)
  show ?case
  proof (cases "strstr s FS_PATH_MARK")
    case None
    then have "upto_last_mark s = []"
      by (simp add: strstr_mark_None upto_last_mark_none)
    with "1.prems" show ?thesis by (simp add: gsub_spec_def)
  next
    case (Some i)
    define pre where "pre = take i s"
    define rest where "rest = drop (Suc i) s"
    from strstr_mark_Some [OF Some] have s: "s = pre @ hd FS_PATH_MARK # rest"
      and pre: "hd FS_PATH_MARK \<notin> set pre"
      by (simp_all add: pre_def rest_def)
    have u: "gsub_spec (upto_last_mark s) r = pre @ r @ gsub_spec (upto_last_mark rest) r"
      by (subst s) (simp add: upto_last_mark_split [OF pre] gsub_split [OF pre])
    have d: "drop (i + length FS_PATH_MARK) s = rest"
      by (simp add: rest_def FS_PATH_MARK_def)
    show ?thesis
    proof (cases "CONCAT buf pre")
      case OutOfBounds
      with Some have "gsub_loop buf s r = OutOfBounds"
        by (subst gsub_loop.simps) (simp add: pre_def)
      then show ?thesis by simp
    next
      case (Done b1)
      then have b1: "b1 = buf @ pre"
        by (auto simp: CONCAT_def split: if_splits)
      show ?thesis
      proof (cases "CONCAT b1 r")
        case OutOfBounds
        with Some Done have "gsub_loop buf s r = OutOfBounds"
          by (subst gsub_loop.simps) (simp add: pre_def)
        then show ?thesis by simp
      next
        case (Done b2)
        then have b2: "b2 = buf @ pre @ r" and le: "length b2 \<le> FS_MAX_PATH"
          using b1 \<open>CONCAT buf pre = Done b1\<close> "1.prems"(2)
          by (auto simp: CONCAT_def split: if_splits)
        show ?thesis
        proof (cases "FS_MAX_PATH \<le> length b2")
          case True
          with le have "length b2 = FS_MAX_PATH" by simp
          moreover have "gsub_loop buf s r = Done (FS_ETOOLONG, b2)"
            using Some \<open>CONCAT buf pre = Done b1\<close> Done True
            by (subst gsub_loop.simps) (simp add: pre_def)
          ultimately show ?thesis by simp
        next
          case False
          have "gsub_loop b2 (drop (i + length FS_PATH_MARK) s) r = OutOfBounds \<or>
             (\<exists>b. gsub_loop b2 (drop (i + length FS_PATH_MARK) s) r = Done (FS_ETOOLONG, b) \<and> length b = FS_MAX_PATH)"
          proof (rule "1.IH" [OF Some _ Done False])
            show "CONCAT buf (take i s) = Done b1"
              using \<open>CONCAT buf pre = Done b1\<close> by (simp add: pre_def)
            show "FS_MAX_PATH \<le> length (b2 @ gsub_spec (upto_last_mark (drop (i + length FS_PATH_MARK) s)) r)"
              using "1.prems"(1) u d b2 by simp
            show "length b2 < FS_MAX_PATH" using False by simp
          qed
          moreover have "gsub_loop buf s r = gsub_loop b2 (drop (i + length FS_PATH_MARK) s) r"
            using Some \<open>CONCAT buf pre = Done b1\<close> Done False
            by (subst gsub_loop.simps) (simp add: pre_def)
          ultimately show ?thesis by simp
        qed
      qed
    qed
  qed
qed

lemma fs_get_template_single:
  "t \<noteq> [] \<Longrightarrow> hd FS_PATH_SEP \<notin> set t \<Longrightarrow> fs_get_template t = Some (t, [])"
  by (cases t) (auto simp: fs_get_template_def Let_def takeWhile_eq_all_conv dropWhile_eq_Nil_conv)

lemma fs_get_template_Nil: "fs_get_template [] = None"
  by (simp add: fs_get_template_def)

lemma fs_concat_path_no_mark:
  "hd FS_PATH_MARK \<notin> set t \<Longrightarrow> fs_concat_path t name = Done (FS_ESUCCESS, [])"
  unfolding fs_concat_path_def
  by (subst gsub_loop.simps) (simp add: strstr_mark_None [symmetric] FS_MAX_PATH_def)

section \<open>Claims about the template engine\<close>

text \<open>
  C1.  The claim: the path produced by \<^verbatim>\<open>_fs_concat_path\<close> is the template with every
  marker replaced by the name, whenever the result fits.  The loop copies the text before
  each marker and the name, but nothing after the loop copies the text that follows the
  last marker: for the template \<^verbatim>\<open>?.txt\<close> and the name \<^verbatim>\<open>a\<close> the function returns
  success with the path \<^verbatim>\<open>a\<close>, where the substitution is \<^verbatim>\<open>a.txt\<close>.
\<close>

theorem C1_text_after_last_marker_dropped:
  "fs_concat_path ''?.txt'' ''a'' = Done (FS_ESUCCESS, ''a'') \<and> gsub_spec ''?.txt'' ''a'' = ''a.txt''"
  by (simp add: gsub_spec_def cfg_defs)

text \<open>
  C3.  The claim: the substitution never writes outside the buffer of \<open>FS_MAX_PATH\<close> bytes
  and returns \<open>FS_ETOOLONG\<close> instead.  The test \<^verbatim>\<open>n >= FS_MAX_PATH\<close> comes after the two
  copies of an iteration: with the template \<^verbatim>\<open>?\<close> and a name of 257 bytes the first
  iteration copies 257 bytes into the array of 256.
\<close>

theorem C3_copy_precedes_length_test:
  "length ''?'' < FS_MAX_PATH \<and> fs_concat_path ''?'' (replicate 257 CHR ''a'') = OutOfBounds"
  by (simp add: cfg_defs)

text \<open>
  C10.  The setters store any string shorter than \<open>FS_MAX_PATH\<close> and do not look for a
  marker.  A template without marker substitutes to the empty path with success, and the
  operations then hand the empty path to the primitives: \<^verbatim>\<open>_fs_make_dirs\<close>, \<^verbatim>\<open>remove\<close>, the
  raw write and \<^verbatim>\<open>stat\<close> are all applied to it.
\<close>

theorem C10_marker_free_template:
  "(length t < FS_MAX_PATH \<longrightarrow>
      fs_set_search_path st t = (FS_ESUCCESS, st\<lparr>fs_search_path := t\<rparr>) \<and>
      fs_set_write_dir st t = (FS_ESUCCESS, st\<lparr>fs_write_dir := t\<rparr>)) \<and>
   (CHR ''?'' \<notin> set t \<longrightarrow> fs_concat_path t name = Done (FS_ESUCCESS, [])) \<and>
   (CHR ''?'' \<notin> set t \<and> t \<noteq> [] \<and> fs_write_dir st = t \<longrightarrow>
      fs_mkdir st name =
        Done (fst (fs_make_dirs (os st) []), st\<lparr>os := snd (fs_make_dirs (os st) [])\<rparr>) \<and>
      fs_delete st name =
        Done (if fst (os_remove (os st) []) \<noteq> 0 then FS_EREMOVE else FS_ESUCCESS,
              st\<lparr>os := snd (os_remove (os st) [])\<rparr>) \<and>
      fs_write st name desc =
        Done (fst (fs_write_to_file_ext (os st) [] FS_MWRITE desc),
              st\<lparr>os := snd (fs_write_to_file_ext (os st) [] FS_MWRITE desc)\<rparr>) \<and>
      fs_append st name desc =
        Done (fst (fs_write_to_file_ext (os st) [] FS_MAPPEND desc),
              st\<lparr>os := snd (fs_write_to_file_ext (os st) [] FS_MAPPEND desc)\<rparr>)) \<and>
   (CHR ''?'' \<notin> set t \<and> t \<noteq> [] \<and> CHR '';'' \<notin> set t \<and> fs_search_path st = t \<longrightarrow>
      fs_check_search_path st name =
        (case os_stat (os st) [] of
           Some s \<Rightarrow> Done (Inr ([], s))
         | None \<Rightarrow> Done (Inl FS_EFAILURE)))"
proof -
  have m: "hd FS_PATH_MARK = CHR ''?''" and p: "hd FS_PATH_SEP = CHR '';''"
    by (simp_all add: FS_PATH_MARK_def FS_PATH_SEP_def)
  have a: "length t < FS_MAX_PATH \<longrightarrow>
      fs_set_search_path st t = (FS_ESUCCESS, st\<lparr>fs_search_path := t\<rparr>) \<and>
      fs_set_write_dir st t = (FS_ESUCCESS, st\<lparr>fs_write_dir := t\<rparr>)"
    by (simp add: fs_set_search_path_def fs_set_write_dir_def)
  have b: "CHR ''?'' \<notin> set t \<longrightarrow> fs_concat_path t name = Done (FS_ESUCCESS, [])"
    using fs_concat_path_no_mark [of t name] by (simp add: m)
  have c: "CHR ''?'' \<notin> set t \<and> t \<noteq> [] \<and> fs_write_dir st = t \<longrightarrow>
      fs_mkdir st name =
        Done (fst (fs_make_dirs (os st) []), st\<lparr>os := snd (fs_make_dirs (os st) [])\<rparr>) \<and>
      fs_delete st name =
        Done (if fst (os_remove (os st) []) \<noteq> 0 then FS_EREMOVE else FS_ESUCCESS,
              st\<lparr>os := snd (os_remove (os st) [])\<rparr>) \<and>
      fs_write st name desc =
        Done (fst (fs_write_to_file_ext (os st) [] FS_MWRITE desc),
              st\<lparr>os := snd (fs_write_to_file_ext (os st) [] FS_MWRITE desc)\<rparr>) \<and>
      fs_append st name desc =
        Done (fst (fs_write_to_file_ext (os st) [] FS_MAPPEND desc),
              st\<lparr>os := snd (fs_write_to_file_ext (os st) [] FS_MAPPEND desc)\<rparr>)"
    using fs_concat_path_no_mark [of t name]
    by (auto simp: m fs_mkdir_def fs_delete_def fs_write_def fs_append_def Let_def
        FS_CREATE_DIR_TREE_def)
  have d: "CHR ''?'' \<notin> set t \<and> t \<noteq> [] \<and> CHR '';'' \<notin> set t \<and> fs_search_path st = t \<longrightarrow>
      fs_check_search_path st name =
        (case os_stat (os st) [] of
           Some s \<Rightarrow> Done (Inr ([], s))
         | None \<Rightarrow> Done (Inl FS_EFAILURE))"
  proof (intro impI, elim conjE)
    assume h: "CHR ''?'' \<notin> set t" "t \<noteq> []" "CHR '';'' \<notin> set t" "fs_search_path st = t"
    have g: "fs_get_template t = Some (t, [])"
      using h by (simp add: fs_get_template_single p)
    have e: "search_loop (os st) [] name = Done (Inl FS_EFAILURE)"
      by (subst search_loop.simps) (simp add: fs_get_template_Nil)
    show "fs_check_search_path st name =
        (case os_stat (os st) [] of
           Some s \<Rightarrow> Done (Inr ([], s))
         | None \<Rightarrow> Done (Inl FS_EFAILURE))"
      unfolding fs_check_search_path_def using h g e fs_concat_path_no_mark [of t name]
      by (subst search_loop.simps) (simp add: m split: option.splits)
  qed
  from a b c d show ?thesis by blast
qed

theorem C10_marker_free_template_witness:
  "fs_set_write_dir \<lparr>fs_search_path = [], fs_write_dir = [], os = w_empty\<rparr> ''sandbox''
     = (FS_ESUCCESS, \<lparr>fs_search_path = [], fs_write_dir = ''sandbox'', os = w_empty\<rparr>) \<and>
   fs_concat_path ''sandbox'' ''a.txt'' = Done (FS_ESUCCESS, []) \<and>
   fs_delete \<lparr>fs_search_path = ''sandbox'', fs_write_dir = ''sandbox'', os = w_empty\<rparr> ''a.txt''
     = Done (FS_EREMOVE, \<lparr>fs_search_path = ''sandbox'', fs_write_dir = ''sandbox'', os = w_empty\<rparr>) \<and>
   fs_check_search_path \<lparr>fs_search_path = ''sandbox'', fs_write_dir = ''sandbox'', os = w_empty\<rparr>
     ''a.txt'' = Done (Inl FS_EFAILURE)"
  using C10_marker_free_template [of "''sandbox''"
      "\<lparr>fs_search_path = [], fs_write_dir = [], os = w_empty\<rparr>" "''a.txt''"
      "\<lparr>data_desc = [], size_desc = 0\<rparr>"]
    C10_marker_free_template [of "''sandbox''"
      "\<lparr>fs_search_path = ''sandbox'', fs_write_dir = ''sandbox'', os = w_empty\<rparr>" "''a.txt''"
      "\<lparr>data_desc = [], size_desc = 0\<rparr>"]
  by (simp add: FS_MAX_PATH_def os_remove_def os_resolve_def os_stat_def)

section \<open>Claims about unconfigured state\<close>

text \<open>
  C8.  With an empty write directory \<^verbatim>\<open>fs_write\<close>, \<^verbatim>\<open>fs_append\<close>, \<^verbatim>\<open>fs_mkdir\<close> and
  \<^verbatim>\<open>fs_delete\<close> return \<open>FS_ENOWRITEDIR\<close> and the state, the filesystem included, is the one
  they were given.  With an empty search path \<^verbatim>\<open>fs_exists\<close> and \<^verbatim>\<open>fs_get_info\<close> return
  \<open>FS_ENOSEARCHPATH\<close> and \<^verbatim>\<open>fs_read\<close> returns \<^verbatim>\<open>NULL\<close>.
\<close>

theorem C8_unconfigured:
  "(fs_write_dir st = [] \<longrightarrow>
      fs_write st name desc = Done (FS_ENOWRITEDIR, st) \<and>
      fs_append st name desc = Done (FS_ENOWRITEDIR, st) \<and>
      fs_mkdir st name = Done (FS_ENOWRITEDIR, st) \<and>
      fs_delete st name = Done (FS_ENOWRITEDIR, st)) \<and>
   (fs_search_path st = [] \<longrightarrow>
      fs_exists st name = Done FS_ENOSEARCHPATH \<and>
      fs_get_info st name = Done (FS_ENOSEARCHPATH, None) \<and>
      fs_read st name = Done ((None, None), st))"
  by (simp add: fs_write_def fs_append_def fs_mkdir_def fs_delete_def fs_exists_def
      fs_get_info_def fs_read_def fs_check_search_path_def)

theorem C8_unconfigured_witness:
  "fs_write \<lparr>fs_search_path = [], fs_write_dir = [], os = w_empty\<rparr> ''example.txt''
       \<lparr>data_desc = ''quick brown fox'', size_desc = 15\<rparr>
     = Done (FS_ENOWRITEDIR, \<lparr>fs_search_path = [], fs_write_dir = [], os = w_empty\<rparr>) \<and>
   fs_exists \<lparr>fs_search_path = [], fs_write_dir = [], os = w_empty\<rparr> ''example.txt''
     = Done FS_ENOSEARCHPATH"
  using C8_unconfigured [of "\<lparr>fs_search_path = [], fs_write_dir = [], os = w_empty\<rparr>"
      "''example.txt''" "\<lparr>data_desc = ''quick brown fox'', size_desc = 15\<rparr>"]
  by simp

section \<open>Claims about the write sandbox\<close>

text \<open>
  C2.  The claim: when the resolved path contains the token \<^verbatim>\<open>..\<close>, \<^verbatim>\<open>fs_write\<close>,
  \<^verbatim>\<open>fs_append\<close>, \<^verbatim>\<open>fs_delete\<close> and \<^verbatim>\<open>fs_mkdir\<close> fail without touching the filesystem.
  Only the raw write tests for the token.  In the world whose working directory is
  \<^verbatim>\<open>/home/box\<close>, with the write directory \<^verbatim>\<open>./?\<close>: \<^verbatim>\<open>fs_mkdir("../x")\<close> succeeds and
  creates \<^verbatim>\<open>/home/x\<close>, \<^verbatim>\<open>fs_delete("../x")\<close> succeeds and removes it, and
  \<^verbatim>\<open>fs_write("../x/f")\<close> fails only after \<^verbatim>\<open>_FS_CREATE_DIR_TREE\<close> has created \<^verbatim>\<open>/home/x\<close>.
\<close>

theorem C2_traversal_reaches_primitives:
  "fs_concat_path (fs_write_dir s_box) ''../x'' = Done (FS_ESUCCESS, ''./../x'') \<and>
   strstr ''./../x'' dotdot = Some 2 \<and>
   fs_mkdir s_box ''../x'' =
     Done (FS_ESUCCESS,
       s_box\<lparr>os := w_box\<lparr>nodes := [([''home''], Dir 1), ([''home'', ''box''], Dir 1),
                                     ([''home'', ''x''], Dir 7)]\<rparr>\<rparr>) \<and>
   fs_delete (s_box\<lparr>os := w_box\<lparr>nodes := [([''home''], Dir 1), ([''home'', ''box''], Dir 1),
                                          ([''home'', ''x''], Dir 7)]\<rparr>\<rparr>) ''../x'' =
     Done (FS_ESUCCESS, s_box) \<and>
   fs_write s_box ''../x/f'' \<lparr>data_desc = ''hello'', size_desc = 5\<rparr> =
     Done (FS_EWRITEFAIL,
       s_box\<lparr>os := w_box\<lparr>nodes := [([''home''], Dir 1), ([''home'', ''box''], Dir 1),
                                     ([''home'', ''x''], Dir 7)]\<rparr>\<rparr>)"
  by (simp add: s_box_def w_box_def fs_mkdir_def fs_delete_def fs_write_def
      fs_write_to_file_ext_def FS_CREATE_DIR_TREE_def fs_make_dirs.simps Let_def os_defs cfg_defs)

section \<open>Claims about file handles\<close>

text \<open>
  C9.  The claim: \<^verbatim>\<open>fs_read\<close>, \<^verbatim>\<open>fs_write\<close> and \<^verbatim>\<open>fs_append\<close> close the stream they opened
  on every exit path.  In \<^verbatim>\<open>fs_read\<close> the return taken when \<^verbatim>\<open>FS_MALLOC\<close> yields \<^verbatim>\<open>NULL\<close>
  comes after a successful \<^verbatim>\<open>fopen\<close> and before \<^verbatim>\<open>fclose\<close>: reading an existing file of
  five bytes with an exhausted heap returns \<^verbatim>\<open>NULL\<close> and the stream stays open.
\<close>

theorem C9_read_leaves_stream_open:
  "fs_read s_full ''a.txt'' =
     Done ((None, Some 5),
       s_full\<lparr>os := (os s_full)\<lparr>open_files := [([''home'', ''box'', ''a.txt''], ''rb'')]\<rparr>\<rparr>) \<and>
   open_files (os s_full) = []"
  by (simp add: s_full_def fs_read_def fs_check_search_path_def search_loop.simps
      fs_get_template_def Let_def os_defs cfg_defs)

section \<open>Claims about the search resolver\<close>

lemma split_on_not_Nil: "split_on c xs \<noteq> []"
  by (induction xs) (auto split: list.splits)

lemma split_on_no_sep: "c \<notin> set t \<Longrightarrow> split_on c t = [t]"
  by (induction t) auto

lemma split_on_sep: "c \<notin> set t \<Longrightarrow> split_on c (t @ c # xs) = t # split_on c xs"
  by (induction t) auto

lemma templates_dropWhile:
  "templates_spec (dropWhile (\<lambda>c. c = hd FS_PATH_SEP) path) = templates_spec path"
  by (induction path) (auto simp: templates_spec_def)

lemma templates_Nil: "templates_spec [] = []"
  by (simp add: templates_spec_def)

lemma templates_unfold:
  "templates_spec path =
     (case fs_get_template path of
        None \<Rightarrow> []
      | Some (t, rest) \<Rightarrow> t # templates_spec rest)"
proof -
  define p where "p = dropWhile (\<lambda>c. c = hd FS_PATH_SEP) path"
  define t where "t = takeWhile (\<lambda>c. c \<noteq> hd FS_PATH_SEP) p"
  define r where "r = dropWhile (\<lambda>c. c \<noteq> hd FS_PATH_SEP) p"
  have tp: "templates_spec path = templates_spec p"
    by (simp add: p_def templates_dropWhile)
  show ?thesis
  proof (cases "p = []")
    case True
    then show ?thesis
      using tp by (simp add: fs_get_template_def p_def [symmetric] templates_Nil)
  next
    case False
    then have "hd p \<noteq> hd FS_PATH_SEP"
      unfolding p_def by (metis (mono_tags, lifting) hd_dropWhile)
    with False have tne: "t \<noteq> []"
      by (cases p) (auto simp: t_def)
    have tset: "hd FS_PATH_SEP \<notin> set t"
      unfolding t_def by (auto dest: set_takeWhileD)
    have ptr: "p = t @ r"
      by (simp add: t_def r_def)
    have "templates_spec p = t # templates_spec r"
    proof (cases r)
      case Nil
      with ptr tset tne show ?thesis
        by (simp add: templates_spec_def split_on_no_sep)
    next
      case (Cons x xs)
      then have "x = hd FS_PATH_SEP"
        using hd_dropWhile [of "\<lambda>c. c \<noteq> hd FS_PATH_SEP" p] by (simp add: r_def)
      with Cons ptr tset tne show ?thesis
        by (simp add: templates_spec_def split_on_sep)
    qed
    with False tp show ?thesis
      by (simp add: fs_get_template_def p_def [symmetric] t_def r_def Let_def)
  qed
qed

lemma templates_Cons:
  "templates_spec path = t # ts \<Longrightarrow> \<exists>rest. fs_get_template path = Some (t, rest) \<and> templates_spec rest = ts"
  by (subst (asm) templates_unfold) (auto split: option.splits)

lemma search_loop_skip:
  "templates_spec path = pre @ ts \<Longrightarrow>
   \<forall>u \<in> set pre. \<exists>c. fs_concat_path u name = Done (FS_ESUCCESS, c) \<and> os_stat w c = None \<Longrightarrow>
   \<exists>path'. templates_spec path' = ts \<and> search_loop w path name = search_loop w path' name"
proof (induction pre arbitrary: path)
  case Nil
  then show ?case by auto
next
  case (Cons u pre)
  from Cons.prems(1) obtain rest where g: "fs_get_template path = Some (u, rest)"
    and r: "templates_spec rest = pre @ ts"
    using templates_Cons [of path u "pre @ ts"] by auto
  from Cons.prems(2) obtain c where c: "fs_concat_path u name = Done (FS_ESUCCESS, c)"
    "os_stat w c = None"
    by auto
  have "search_loop w path name = search_loop w rest name"
    using g c by (subst search_loop.simps) simp
  moreover from Cons.IH [OF r] Cons.prems(2)
  obtain path' where "templates_spec path' = ts" "search_loop w rest name = search_loop w path' name"
    by auto
  ultimately show ?case by auto
qed

lemma search_loop_hit:
  assumes "templates_spec path = pre @ t # post"
    and "\<forall>u \<in> set pre. \<exists>c. fs_concat_path u name = Done (FS_ESUCCESS, c) \<and> os_stat w c = None"
    and "fs_concat_path t name = Done (FS_ESUCCESS, c)"
    and "os_stat w c = Some s"
  shows "search_loop w path name = Done (Inr (c, s))"
proof -
  from search_loop_skip [OF assms(1,2)] obtain path' where p: "templates_spec path' = t # post"
    and e: "search_loop w path name = search_loop w path' name"
    by auto
  from templates_Cons [OF p] obtain rest where "fs_get_template path' = Some (t, rest)"
    by auto
  then have "search_loop w path' name = Done (Inr (c, s))"
    using assms(3,4) by (subst search_loop.simps) simp
  with e show ?thesis by simp
qed

lemma search_loop_error:
  assumes "templates_spec path = pre @ t # post"
    and "\<forall>u \<in> set pre. \<exists>c. fs_concat_path u name = Done (FS_ESUCCESS, c) \<and> os_stat w c = None"
    and "fs_concat_path t name = Done (FS_ETOOLONG, b)"
  shows "search_loop w path name = Done (Inl FS_ETOOLONG)"
proof -
  from search_loop_skip [OF assms(1,2)] obtain path' where p: "templates_spec path' = t # post"
    and e: "search_loop w path name = search_loop w path' name"
    by auto
  from templates_Cons [OF p] obtain rest where "fs_get_template path' = Some (t, rest)"
    by auto
  then have "search_loop w path' name = Done (Inl FS_ETOOLONG)"
    using assms(3) by (subst search_loop.simps) simp
  with e show ?thesis by simp
qed

lemma search_loop_miss:
  assumes "\<forall>u \<in> set (templates_spec path).
      \<exists>c. fs_concat_path u name = Done (FS_ESUCCESS, c) \<and> os_stat w c = None"
  shows "search_loop w path name = Done (Inl FS_EFAILURE)"
proof -
  from search_loop_skip [of path "templates_spec path" "[]" name w] assms
  obtain path' where p: "templates_spec path' = []"
    and e: "search_loop w path name = search_loop w path' name"
    by auto
  from p have "fs_get_template path' = None"
    by (subst (asm) templates_unfold) (auto split: option.splits)
  then have "search_loop w path' name = Done (Inl FS_EFAILURE)"
    by (subst search_loop.simps) simp
  with e show ?thesis by simp
qed

lemma step_long: "2 < length c \<Longrightarrow> step cur c = cur @ [c]"
  by (auto simp: step_def)

text \<open>
  C4.  The claim as it is worded: for every non-empty search path the resolution returns the
  first candidate that exists.  With the search path \<^verbatim>\<open>aaaaa/?;?\<close> and a name of 250
  bytes the first template substitutes to 256 bytes, \<^verbatim>\<open>_FS_CNCT_PATH\<close> returns
  \<open>FS_ETOOLONG\<close> from \<^verbatim>\<open>_fs_check_search_path\<close>, and the second candidate, which exists, is
  never tried.
\<close>

theorem C4_too_long_template_stops_search:
  "fs_search_path s_long \<noteq> [] \<and>
   templates_spec (fs_search_path s_long) = [''aaaaa/?'', ''?''] \<and>
   candidates_spec (templates_spec (fs_search_path s_long)) name250 = [name250] \<and>
   first_existing_spec (os s_long) (candidates_spec (templates_spec (fs_search_path s_long)) name250) =
     Inr (name250, \<lparr>st_mode = S_IFREG, st_size = 0, st_mtime = 7\<rparr>) \<and>
   os_stat (os s_long) (''aaaaa/'' @ name250) = None \<and>
   fs_check_search_path s_long name250 = Done (Inl FS_ETOOLONG)"
proof -
  have t: "templates_spec (fs_search_path s_long) = [''aaaaa/?'', ''?'']"
    by (simp add: s_long_def templates_spec_def FS_PATH_SEP_def)
  have c1: "fs_concat_path ''aaaaa/?'' name250 = Done (FS_ETOOLONG, ''aaaaa/'' @ name250)"
    by (simp add: name250_def cfg_defs)
  have c2: "fs_concat_path ''?'' name250 = Done (FS_ESUCCESS, name250)"
    by (simp add: name250_def cfg_defs)
  have n: "CHR ''/'' \<notin> set name250" "name250 \<noteq> []" "hd name250 \<noteq> CHR ''/''" "2 < length name250"
    by (simp_all add: name250_def)
  have s: "os_stat (os s_long) name250 = Some \<lparr>st_mode = S_IFREG, st_size = 0, st_mtime = 7\<rparr>"
    using n by (simp add: s_long_def os_stat_def os_resolve_def components_def split_on_no_sep
        step_long is_dir_def node_at_def)
  have "length name250 \<noteq> length ''aaaaa''"
    by (simp add: name250_def)
  then have ne: "name250 \<noteq> ''aaaaa''"
    by (rule contrapos_nn) simp
  have s': "os_stat (os s_long) (''aaaaa/'' @ name250) = None"
    using n ne by (simp add: s_long_def os_stat_def os_resolve_def components_def split_on_no_sep
        step_def is_dir_def node_at_def)
  have g: "fs_get_template ''aaaaa/?;?'' = Some (''aaaaa/?'', '';?'')"
    by (simp add: fs_get_template_def FS_PATH_SEP_def)
  have r: "fs_check_search_path s_long name250 = Done (Inl FS_ETOOLONG)"
    unfolding fs_check_search_path_def
    by (subst search_loop.simps) (simp add: s_long_def g c1)
  show ?thesis
    using t c1 c2 s s' r by (simp add: candidates_spec_def s_long_def)
qed

lemma search_loop_over:
  assumes "templates_spec path = pre @ t # post"
    and "\<forall>u \<in> set pre. \<exists>c. fs_concat_path u name = Done (FS_ESUCCESS, c) \<and> os_stat w c = None"
    and "FS_MAX_PATH \<le> length (gsub_spec (upto_last_mark t) name)"
  shows "search_loop w path name = OutOfBounds \<or> search_loop w path name = Done (Inl FS_ETOOLONG)"
proof -
  from search_loop_skip [OF assms(1,2)] obtain path' where p: "templates_spec path' = t # post"
    and e: "search_loop w path name = search_loop w path' name"
    by auto
  from templates_Cons [OF p] obtain rest where g: "fs_get_template path' = Some (t, rest)"
    by auto
  from gsub_loop_over [of "[]" t name] assms(3)
  have "fs_concat_path t name = OutOfBounds \<or> (\<exists>b. fs_concat_path t name = Done (FS_ETOOLONG, b))"
    by (auto simp: fs_concat_path_def FS_MAX_PATH_def)
  then have "search_loop w path' name = OutOfBounds \<or> search_loop w path' name = Done (Inl FS_ETOOLONG)"
  proof
    assume "fs_concat_path t name = OutOfBounds"
    with g have "search_loop w path' name = OutOfBounds"
      by (subst search_loop.simps) simp
    then show ?thesis by simp
  next
    assume "\<exists>b. fs_concat_path t name = Done (FS_ETOOLONG, b)"
    then obtain b where "fs_concat_path t name = Done (FS_ETOOLONG, b)" by blast
    with g have "search_loop w path' name = Done (Inl FS_ETOOLONG)"
      by (subst search_loop.simps) simp
    then show ?thesis by simp
  qed
  with e show ?thesis by simp
qed

text \<open>
  C4, amended.  Let the templates before some position all substitute within the bound to
  paths that do not exist.  If no template is left the result is the not-found failure.  If
  the next template substitutes to a path that exists, the result is that path with its
  metadata.  If the substitution of the next template returns \<open>FS_ETOOLONG\<close>, so does the
  resolution.  And whenever the result for the next template does not fit into
  \<open>FS_MAX_PATH\<close> bytes, the resolution ends there, with \<open>FS_ETOOLONG\<close> or in the write outside
  the buffer: no later candidate is returned.
\<close>

theorem C4_first_existing_candidate:
  assumes "fs_search_path st \<noteq> []"
    and "templates_spec (fs_search_path st) = pre @ rest"
    and "\<forall>u \<in> set pre. \<exists>c. fs_concat_path u name = Done (FS_ESUCCESS, c) \<and> os_stat (os st) c = None"
  shows "(rest = [] \<longrightarrow> fs_check_search_path st name = Done (Inl FS_EFAILURE)) \<and>
    (rest = t # post \<and> fs_concat_path t name = Done (FS_ESUCCESS, c) \<and> os_stat (os st) c = Some s
       \<longrightarrow> fs_check_search_path st name = Done (Inr (c, s))) \<and>
    (rest = t # post \<and> fs_concat_path t name = Done (FS_ETOOLONG, b)
       \<longrightarrow> fs_check_search_path st name = Done (Inl FS_ETOOLONG)) \<and>
    (rest = t # post \<and> FS_MAX_PATH \<le> length (gsub_spec (upto_last_mark t) name)
       \<longrightarrow> fs_check_search_path st name = OutOfBounds \<or>
           fs_check_search_path st name = Done (Inl FS_ETOOLONG))"
proof (intro conjI impI)
  assume "rest = []"
  with assms(2,3) show "fs_check_search_path st name = Done (Inl FS_EFAILURE)"
    using search_loop_miss [of "fs_search_path st" name "os st"] assms(1)
    by (simp add: fs_check_search_path_def)
next
  assume "rest = t # post \<and> fs_concat_path t name = Done (FS_ESUCCESS, c) \<and> os_stat (os st) c = Some s"
  with assms show "fs_check_search_path st name = Done (Inr (c, s))"
    using search_loop_hit [of "fs_search_path st" pre t post name "os st" c s]
    by (simp add: fs_check_search_path_def)
next
  assume "rest = t # post \<and> fs_concat_path t name = Done (FS_ETOOLONG, b)"
  with assms show "fs_check_search_path st name = Done (Inl FS_ETOOLONG)"
    using search_loop_error [of "fs_search_path st" pre t post name "os st" b]
    by (simp add: fs_check_search_path_def)
next
  assume "rest = t # post \<and> FS_MAX_PATH \<le> length (gsub_spec (upto_last_mark t) name)"
  with assms show "fs_check_search_path st name = OutOfBounds \<or>
      fs_check_search_path st name = Done (Inl FS_ETOOLONG)"
    using search_loop_over [of "fs_search_path st" pre t post name "os st"]
    by (simp add: fs_check_search_path_def)
qed

theorem C4_first_existing_candidate_witness:
  "fs_check_search_path s_three ''a.txt'' =
     Done (Inr (''./a.txt'', \<lparr>st_mode = S_IFREG, st_size = 5, st_mtime = 7\<rparr>)) \<and>
   os_stat (os s_three) ''a.txt'' = Some \<lparr>st_mode = S_IFREG, st_size = 5, st_mtime = 7\<rparr> \<and>
   fs_check_search_path (s_three\<lparr>fs_search_path := ''x/?;y/?''\<rparr>) ''a.txt'' = Done (Inl FS_EFAILURE) \<and>
   fs_concat_path ''aaaaa/?'' name250 = Done (FS_ETOOLONG, ''aaaaa/'' @ name250) \<and>
   fs_check_search_path s_long name250 = Done (Inl FS_ETOOLONG) \<and>
   length (gsub_spec (upto_last_mark ''aaaaaa/?'') name250) = 257 \<and>
   (fs_check_search_path s_over name250 = OutOfBounds \<or>
    fs_check_search_path s_over name250 = Done (Inl FS_ETOOLONG)) \<and>
   fs_concat_path ''aaaaaa/?'' name250 = OutOfBounds"
proof -
  have h1: "fs_search_path s_three \<noteq> []"
    by (simp add: s_three_def)
  have h2: "templates_spec (fs_search_path s_three) = [''x/?''] @ [''./?'', ''?'']"
    by (simp add: s_three_def templates_spec_def FS_PATH_SEP_def)
  have h3: "\<forall>u \<in> set [''x/?''].
      \<exists>c. fs_concat_path u ''a.txt'' = Done (FS_ESUCCESS, c) \<and> os_stat (os s_three) c = None"
    by (simp add: s_three_def os_defs cfg_defs)
  have h4: "fs_concat_path ''./?'' ''a.txt'' = Done (FS_ESUCCESS, ''./a.txt'')"
    by (simp add: cfg_defs)
  have h5: "os_stat (os s_three) ''./a.txt'' = Some \<lparr>st_mode = S_IFREG, st_size = 5, st_mtime = 7\<rparr>"
    by (simp add: s_three_def os_defs)
  have h6: "os_stat (os s_three) ''a.txt'' = Some \<lparr>st_mode = S_IFREG, st_size = 5, st_mtime = 7\<rparr>"
    by (simp add: s_three_def os_defs)
  from C4_first_existing_candidate [OF h1 h2 h3, of "''./?''" "[''?'']" "''./a.txt''"
      "\<lparr>st_mode = S_IFREG, st_size = 5, st_mtime = 7\<rparr>"] h4 h5
  have hit: "fs_check_search_path s_three ''a.txt'' =
      Done (Inr (''./a.txt'', \<lparr>st_mode = S_IFREG, st_size = 5, st_mtime = 7\<rparr>))"
    by simp
  have m1: "fs_search_path (s_three\<lparr>fs_search_path := ''x/?;y/?''\<rparr>) \<noteq> []"
    by simp
  have m2: "templates_spec (fs_search_path (s_three\<lparr>fs_search_path := ''x/?;y/?''\<rparr>)) = [''x/?'', ''y/?''] @ []"
    by (simp add: templates_spec_def FS_PATH_SEP_def)
  have m3: "\<forall>u \<in> set [''x/?'', ''y/?''].
      \<exists>c. fs_concat_path u ''a.txt'' = Done (FS_ESUCCESS, c) \<and>
          os_stat (os (s_three\<lparr>fs_search_path := ''x/?;y/?''\<rparr>)) c = None"
    by (simp add: s_three_def os_defs cfg_defs)
  from C4_first_existing_candidate [OF m1 m2 m3]
  have miss: "fs_check_search_path (s_three\<lparr>fs_search_path := ''x/?;y/?''\<rparr>) ''a.txt'' =
      Done (Inl FS_EFAILURE)"
    by simp
  have l1: "fs_search_path s_long \<noteq> []"
    by (simp add: s_long_def)
  have l2: "templates_spec (fs_search_path s_long) = [] @ [''aaaaa/?'', ''?'']"
    by (simp add: s_long_def templates_spec_def FS_PATH_SEP_def)
  have l3: "\<forall>u \<in> set []. \<exists>c. fs_concat_path u name250 = Done (FS_ESUCCESS, c) \<and> os_stat (os s_long) c = None"
    by simp
  have l4: "fs_concat_path ''aaaaa/?'' name250 = Done (FS_ETOOLONG, ''aaaaa/'' @ name250)"
    by (simp add: name250_def cfg_defs)
  from C4_first_existing_candidate [OF l1 l2 l3, of "''aaaaa/?''" "[''?'']" _ _ "''aaaaa/'' @ name250"] l4
  have long: "fs_check_search_path s_long name250 = Done (Inl FS_ETOOLONG)"
    by simp
  have o1: "fs_search_path s_over \<noteq> []"
    by (simp add: s_over_def)
  have o2: "templates_spec (fs_search_path s_over) = [] @ [''aaaaaa/?'', ''?'']"
    by (simp add: s_over_def templates_spec_def FS_PATH_SEP_def)
  have o3: "\<forall>u \<in> set []. \<exists>c. fs_concat_path u name250 = Done (FS_ESUCCESS, c) \<and> os_stat (os s_over) c = None"
    by simp
  have o4: "length (gsub_spec (upto_last_mark ''aaaaaa/?'') name250) = 257"
    by (simp add: gsub_spec_def FS_PATH_MARK_def name250_def)
  then have o5: "FS_MAX_PATH \<le> length (gsub_spec (upto_last_mark ''aaaaaa/?'') name250)"
    by (simp add: FS_MAX_PATH_def)
  from C4_first_existing_candidate [OF o1 o2 o3, of "''aaaaaa/?''" "[''?'']"] o5
  have over: "fs_check_search_path s_over name250 = OutOfBounds \<or>
      fs_check_search_path s_over name250 = Done (Inl FS_ETOOLONG)"
    by simp
  have o6: "fs_concat_path ''aaaaaa/?'' name250 = OutOfBounds"
    by (simp add: name250_def cfg_defs)
  from hit h6 miss l4 long o4 over o6 show ?thesis by simp
qed

section \<open>Properties of the backing filesystem\<close>

lemma node_at_update:
  "p \<noteq> [] \<Longrightarrow>
     node_at (w\<lparr>nodes := AList.update p v (nodes w)\<rparr>) q = (if q = p then Some v else node_at w q)"
  by (simp add: node_at_def update_conv')

lemma node_at_fields [simp]:
  "node_at (w\<lparr>open_files := x\<rparr>) q = node_at w q"
  "node_at (w\<lparr>heap_free := y\<rparr>) q = node_at w q"
  by (simp_all add: node_at_def)

lemma is_dir_fields [simp]:
  "is_dir (w\<lparr>open_files := x\<rparr>) q = is_dir w q"
  "is_dir (w\<lparr>heap_free := y\<rparr>) q = is_dir w q"
  by (simp_all add: is_dir_def)

lemma is_dir_node: "is_dir w q \<longleftrightarrow> (\<exists>t. node_at w q = Some (Dir t))"
  by (auto simp: is_dir_def split: option.splits node.splits)

lemma walk_cong:
  "(\<And>q. is_dir w' q = is_dir w q) \<Longrightarrow> walk w' cur cs = walk w cur cs"
  by (induction cs arbitrary: cur) auto

lemma walk_mono:
  "(\<And>q. is_dir w q \<Longrightarrow> is_dir w' q) \<Longrightarrow> walk w cur cs = Some p \<Longrightarrow> walk w' cur cs = Some p"
  by (induction cs arbitrary: cur) (auto split: if_splits)

lemma grows_refl: "grows w w"
  by (simp add: grows_def)

lemma grows_trans: "grows w w' \<Longrightarrow> grows w' w'' \<Longrightarrow> grows w w''"
  unfolding grows_def
  by (intro conjI allI; (simp; fail)?) (metis option.distinct(1))

lemma grows_is_dir: "grows w w' \<Longrightarrow> is_dir w q \<Longrightarrow> is_dir w' q"
  unfolding grows_def is_dir_node by (metis option.distinct(1))

lemma grows_node: "grows w w' \<Longrightarrow> node_at w q = Some n \<Longrightarrow> node_at w' q = Some n"
  unfolding grows_def by (metis option.distinct(1))

lemma grows_cwd: "grows w w' \<Longrightarrow> cwd w' = cwd w"
  by (simp add: grows_def)

lemma grows_resolve:
  assumes "grows w w'" and "os_resolve w path = Some p"
  shows "os_resolve w' path = Some p"
proof -
  have "walk w cur cs = Some p \<Longrightarrow> walk w' cur cs = Some p" for cur cs
    by (rule walk_mono [of w w']) (rule grows_is_dir [OF assms(1)])
  with assms(2) grows_cwd [OF assms(1)] show ?thesis
    by (auto simp: os_resolve_def split: if_splits)
qed

lemma os_mkdir_grows: "grows w (snd (os_mkdir w path))"
proof (cases "os_resolve w path")
  case None
  then show ?thesis by (simp add: os_mkdir_def grows_refl)
next
  case (Some p)
  show ?thesis
  proof (cases "node_at w p = None \<and> is_dir w (butlast p)")
    case True
    then have "p \<noteq> []" by (auto simp: node_at_def)
    with Some True show ?thesis
      by (auto simp: os_mkdir_def grows_def node_at_update)
  next
    case False
    with Some show ?thesis by (auto simp: os_mkdir_def grows_refl)
  qed
qed

lemma fs_make_dirs_grows: "grows w (snd (fs_make_dirs w path))"
proof (induction w path rule: fs_make_dirs.induct)
  case (1 w path)
  show ?case
  proof (cases "strrchr path CHR ''/''")
    case None
    then show ?thesis
      by (subst fs_make_dirs.simps) (simp add: os_mkdir_grows)
  next
    case (Some i)
    from "1.IH" [OF Some] have "grows w (snd (fs_make_dirs w (take i path)))" .
    moreover have "grows (snd (fs_make_dirs w (take i path)))
        (snd (os_mkdir (snd (fs_make_dirs w (take i path))) path))"
      by (rule os_mkdir_grows)
    ultimately have "grows w (snd (os_mkdir (snd (fs_make_dirs w (take i path))) path))"
      by (rule grows_trans)
    then show ?thesis
      using Some by (subst fs_make_dirs.simps) (simp add: Let_def)
  qed
qed

lemma FS_CREATE_DIR_TREE_grows: "grows w (FS_CREATE_DIR_TREE w buf)"
  by (cases "strrchr buf CHR ''/''") (simp_all add: FS_CREATE_DIR_TREE_def grows_refl fs_make_dirs_grows)

lemma os_resolve_cong:
  "cwd w' = cwd w \<Longrightarrow> (\<And>q. is_dir w' q = is_dir w q) \<Longrightarrow> os_resolve w' path = os_resolve w path"
  by (simp add: os_resolve_def walk_cong [of w' w])

lemma is_dir_update_Reg:
  "p \<noteq> [] \<Longrightarrow> \<not> is_dir w p \<Longrightarrow>
     is_dir (w\<lparr>nodes := AList.update p (Reg c t) (nodes w)\<rparr>) q = is_dir w q"
  by (simp add: is_dir_def node_at_update)

text \<open>The effect of a successful open for writing or appending.\<close>

lemma os_fopen_write:
  assumes "os_fopen w path mode = (Some fp, w1)" and "mode = FS_MWRITE \<or> mode = FS_MAPPEND"
  shows "\<exists>p. os_resolve w path = Some p \<and> fp = (p, mode) \<and> p \<noteq> [] \<and> \<not> is_dir w p \<and>
     (\<exists>t. node_at w1 p = Some (Reg (if mode = FS_MAPPEND then content w p else []) t)) \<and>
     (\<forall>q. q \<noteq> p \<longrightarrow> node_at w1 q = node_at w q) \<and>
     cwd w1 = cwd w \<and> now w1 = now w \<and> heap_free w1 = heap_free w \<and>
     open_files w1 = fp # open_files w"
proof -
  from assms(1) obtain p where r: "os_resolve w path = Some p"
    by (auto simp: os_fopen_def split: option.splits)
  show ?thesis
  proof (cases "node_at w p")
    case None
    then have ne: "p \<noteq> []" by (auto simp: node_at_def)
    from None have nd: "\<not> is_dir w p" by (simp add: is_dir_def)
    from assms r None ne nd show ?thesis
      by (auto simp: os_fopen_def node_at_update content_def FS_MWRITE_def FS_MAPPEND_def
          FS_MREAD_def split: if_splits)
  next
    case (Some n)
    show ?thesis
    proof (cases n)
      case (Dir t)
      with assms r Some show ?thesis
        by (auto simp: os_fopen_def FS_MREAD_def FS_MWRITE_def FS_MAPPEND_def)
    next
      case (Reg c t)
      with Some have ne: "p \<noteq> []" by (auto simp: node_at_def)
      from Some Reg have nd: "\<not> is_dir w p" by (simp add: is_dir_def)
      from assms r Some Reg ne nd show ?thesis
        by (auto simp: os_fopen_def node_at_update content_def FS_MWRITE_def FS_MAPPEND_def)
    qed
  qed
qed

lemma fs_write_to_file_ext_effect:
  assumes "fs_write_to_file_ext w buf mode d = (FS_ESUCCESS, w')"
    and "mode = FS_MWRITE \<or> mode = FS_MAPPEND"
  shows "\<exists>p. os_resolve w buf = Some p \<and> os_resolve w' buf = Some p \<and> \<not> is_dir w p \<and>
     (\<exists>t. node_at w' p =
        Some (Reg ((if mode = FS_MAPPEND then content w p else []) @ take (size_desc d) (data_desc d)) t)) \<and>
     (\<forall>q. q \<noteq> p \<longrightarrow> node_at w' q = node_at w q) \<and>
     cwd w' = cwd w \<and> heap_free w' = heap_free w \<and> open_files w' = open_files w \<and>
     strstr buf dotdot = None"
proof -
  from assms(1) have nd: "strstr buf dotdot = None"
    by (auto simp: fs_write_to_file_ext_def split: if_splits)
  from assms(1) nd obtain fp w1 where o: "os_fopen w buf mode = (Some fp, w1)"
    by (cases "os_fopen w buf mode"; cases "fst (os_fopen w buf mode)")
       (auto simp: fs_write_to_file_ext_def)
  from os_fopen_write [OF o assms(2)] obtain p t where p: "os_resolve w buf = Some p"
    "fp = (p, mode)" "p \<noteq> []" "\<not> is_dir w p"
    "node_at w1 p = Some (Reg (if mode = FS_MAPPEND then content w p else []) t)"
    "\<forall>q. q \<noteq> p \<longrightarrow> node_at w1 q = node_at w q"
    "cwd w1 = cwd w" "now w1 = now w" "heap_free w1 = heap_free w"
    "open_files w1 = fp # open_files w"
    by blast
  define c where "c = (if mode = FS_MAPPEND then content w p else [])"
  define w2 where "w2 = snd (os_fwrite w1 fp (take (size_desc d) (data_desc d)))"
  have w2: "w2 = w1\<lparr>nodes := AList.update p (Reg (c @ take (size_desc d) (data_desc d)) (now w1)) (nodes w1)\<rparr>"
    using p(2,5) by (simp add: w2_def os_fwrite_def c_def)
  from assms(1) nd o have w': "w' = os_fclose w2 fp"
    by (auto simp: fs_write_to_file_ext_def Let_def w2_def)
  have n': "node_at w' q = (if q = p then Some (Reg (c @ take (size_desc d) (data_desc d)) (now w1)) else node_at w q)" for q
    using p(3,6) by (simp add: w' w2 os_fclose_def node_at_update)
  have d': "is_dir w' q = is_dir w q" for q
    using p(4) by (simp add: is_dir_def n')
  have cw: "cwd w' = cwd w"
    using p(7) by (simp add: w' w2 os_fclose_def)
  have "os_resolve w' buf = Some p"
    using os_resolve_cong [of w' w buf, OF cw d'] p(1) by simp
  moreover have "heap_free w' = heap_free w" "open_files w' = open_files w"
    using p(9,10) by (simp_all add: w' w2 os_fclose_def)
  ultimately show ?thesis
    using p(1,4) n' cw nd by (auto simp: c_def)
qed

text \<open>Reading through a search path that consists of one template.\<close>

lemma fs_read_single:
  assumes "fs_search_path st \<noteq> []" and "hd FS_PATH_SEP \<notin> set (fs_search_path st)"
    and "fs_concat_path (fs_search_path st) name = Done (FS_ESUCCESS, buf)"
    and "os_resolve (os st) buf = Some p"
    and "node_at (os st) p = Some (Reg c t)"
    and "length c \<le> heap_free (os st)"
  shows "\<exists>st'. fs_read st name = Done ((Some c, Some (length c)), st')"
proof -
  have g: "fs_get_template (fs_search_path st) = Some (fs_search_path st, [])"
    using assms(1,2) by (rule fs_get_template_single)
  have s: "os_stat (os st) buf = Some \<lparr>st_mode = S_IFREG, st_size = length c, st_mtime = t\<rparr>"
    using assms(4,5) by (simp add: os_stat_def)
  have c: "fs_check_search_path st name =
      Done (Inr (buf, \<lparr>st_mode = S_IFREG, st_size = length c, st_mtime = t\<rparr>))"
    unfolding fs_check_search_path_def using assms(1,3) g s
    by (subst search_loop.simps) simp
  have o: "os_fopen (os st) buf FS_MREAD =
      (Some (p, FS_MREAD), (os st)\<lparr>open_files := (p, FS_MREAD) # open_files (os st)\<rparr>)"
    using assms(4,5) by (simp add: os_fopen_def FS_MREAD_def FS_MWRITE_def)
  show ?thesis
    using c o assms(5,6) by (simp add: fs_read_def FS_MALLOC_def os_fread_def)
qed

text \<open>What a successful \<^verbatim>\<open>fs_write\<close> or \<^verbatim>\<open>fs_append\<close> has done.\<close>

lemma fs_write_success:
  assumes "fs_write st name d = Done (FS_ESUCCESS, st1)"
  shows "fs_write_dir st \<noteq> [] \<and>
    (\<exists>buf w'. fs_concat_path (fs_write_dir st) name = Done (FS_ESUCCESS, buf) \<and>
       fs_write_to_file_ext (FS_CREATE_DIR_TREE (os st) buf) buf FS_MWRITE d = (FS_ESUCCESS, w') \<and>
       st1 = st\<lparr>os := w'\<rparr>)"
proof -
  from assms have ne: "fs_write_dir st \<noteq> []"
    by (auto simp: fs_write_def split: if_splits)
  with assms obtain buf where c: "fs_concat_path (fs_write_dir st) name = Done (FS_ESUCCESS, buf)"
    by (cases "fs_concat_path (fs_write_dir st) name")
       (auto simp: fs_write_def Let_def split: if_splits)
  with assms ne show ?thesis
    by (cases "fs_write_to_file_ext (FS_CREATE_DIR_TREE (os st) buf) buf FS_MWRITE d")
       (auto simp: fs_write_def Let_def)
qed

lemma fs_append_success:
  assumes "fs_append st name d = Done (FS_ESUCCESS, st1)"
  shows "fs_write_dir st \<noteq> [] \<and>
    (\<exists>buf w'. fs_concat_path (fs_write_dir st) name = Done (FS_ESUCCESS, buf) \<and>
       fs_write_to_file_ext (FS_CREATE_DIR_TREE (os st) buf) buf FS_MAPPEND d = (FS_ESUCCESS, w') \<and>
       st1 = st\<lparr>os := w'\<rparr>)"
proof -
  from assms have ne: "fs_write_dir st \<noteq> []"
    by (auto simp: fs_append_def split: if_splits)
  with assms obtain buf where c: "fs_concat_path (fs_write_dir st) name = Done (FS_ESUCCESS, buf)"
    by (cases "fs_concat_path (fs_write_dir st) name")
       (auto simp: fs_append_def Let_def split: if_splits)
  with assms ne show ?thesis
    by (cases "fs_write_to_file_ext (FS_CREATE_DIR_TREE (os st) buf) buf FS_MAPPEND d")
       (auto simp: fs_append_def Let_def)
qed

lemma write_then_read:
  assumes "fs_search_path st = fs_write_dir st"
    and "CHR '';'' \<notin> set (fs_write_dir st)"
    and "size_desc d \<le> length (data_desc d)"
    and "fs_write st name d = Done (FS_ESUCCESS, st1)"
    and "size_desc d \<le> heap_free (os st1)"
  shows "\<exists>st2. fs_read st1 name = Done ((Some (take (size_desc d) (data_desc d)), Some (size_desc d)), st2)"
proof -
  from fs_write_success [OF assms(4)] obtain buf w' where ne: "fs_write_dir st \<noteq> []"
    and c: "fs_concat_path (fs_write_dir st) name = Done (FS_ESUCCESS, buf)"
    and r: "fs_write_to_file_ext (FS_CREATE_DIR_TREE (os st) buf) buf FS_MWRITE d = (FS_ESUCCESS, w')"
    and s1: "st1 = st\<lparr>os := w'\<rparr>"
    by blast
  from fs_write_to_file_ext_effect [OF r] obtain p t where p: "os_resolve w' buf = Some p"
    and n: "node_at w' p = Some (Reg (take (size_desc d) (data_desc d)) t)"
    by (auto simp: FS_MWRITE_def FS_MAPPEND_def)
  have "\<exists>st2. fs_read st1 name =
      Done ((Some (take (size_desc d) (data_desc d)), Some (length (take (size_desc d) (data_desc d)))), st2)"
  proof (rule fs_read_single)
    show "fs_search_path st1 \<noteq> []" using ne assms(1) by (simp add: s1)
    show "hd FS_PATH_SEP \<notin> set (fs_search_path st1)"
      using assms(1,2) by (simp add: s1 FS_PATH_SEP_def)
    show "fs_concat_path (fs_search_path st1) name = Done (FS_ESUCCESS, buf)"
      using c assms(1) by (simp add: s1)
    show "os_resolve (os st1) buf = Some p" using p by (simp add: s1)
    show "node_at (os st1) p = Some (Reg (take (size_desc d) (data_desc d)) t)" using n by (simp add: s1)
    show "length (take (size_desc d) (data_desc d)) \<le> heap_free (os st1)" using assms(3,5) by simp
  qed
  with assms(3) show ?thesis by simp
qed

section \<open>Claims about reading back what was written\<close>

lemma search_loop_found_stat:
  "search_loop w path name = Done (Inr (buf, s)) \<Longrightarrow> os_stat w buf = Some s"
proof (induction w path name rule: search_loop.induct)
  case (1 w path filename)
  from "1.prems" obtain str rest where g: "fs_get_template path = Some (str, rest)"
    by (subst (asm) search_loop.simps) (auto split: option.splits)
  from "1.prems" g obtain c where c: "fs_concat_path str filename = Done (FS_ESUCCESS, c)"
    by (subst (asm) search_loop.simps) (auto split: run.splits if_splits)
  show ?case
  proof (cases "os_stat w c")
    case None
    with "1.prems" g c have r: "search_loop w rest filename = Done (Inr (buf, s))"
      by (subst (asm) search_loop.simps) simp
    show ?thesis
      by (rule "1.IH" [OF g refl c refl _ None r]) simp
  next
    case (Some s')
    with "1.prems" g c show ?thesis
      by (subst (asm) search_loop.simps) simp
  qed
qed

text \<open>Reading when the resolution has found a regular file.\<close>

lemma fs_read_found:
  assumes "fs_check_search_path st name = Done (Inr (buf, fstat))"
    and "os_resolve (os st) buf = Some p"
    and "node_at (os st) p = Some (Reg c t)"
    and "length c \<le> heap_free (os st)"
  shows "\<exists>st'. fs_read st name = Done ((Some c, Some (length c)), st')"
proof -
  from assms(1) have "search_loop (os st) (fs_search_path st) name = Done (Inr (buf, fstat))"
    by (auto simp: fs_check_search_path_def split: if_splits)
  from search_loop_found_stat [OF this] assms(2,3)
  have f: "fstat = \<lparr>st_mode = S_IFREG, st_size = length c, st_mtime = t\<rparr>"
    by (simp add: os_stat_def)
  have o: "os_fopen (os st) buf FS_MREAD =
      (Some (p, FS_MREAD), (os st)\<lparr>open_files := (p, FS_MREAD) # open_files (os st)\<rparr>)"
    using assms(2,3) by (simp add: os_fopen_def FS_MREAD_def FS_MWRITE_def)
  show ?thesis
    using assms(1,3,4) f o by (simp add: fs_read_def FS_MALLOC_def os_fread_def)
qed

lemma write_then_read_at:
  assumes "fs_write st name d = Done (FS_ESUCCESS, st1)"
    and "fs_concat_path (fs_write_dir st) name = Done (FS_ESUCCESS, wbuf)"
    and "fs_check_search_path st1 name = Done (Inr (rbuf, fstat))"
    and "os_resolve (os st1) rbuf = os_resolve (os st1) wbuf"
    and "size_desc d \<le> length (data_desc d)"
    and "size_desc d \<le> heap_free (os st1)"
  shows "\<exists>st2. fs_read st1 name = Done ((Some (take (size_desc d) (data_desc d)), Some (size_desc d)), st2)"
proof -
  from fs_write_success [OF assms(1)] assms(2) obtain w'
    where r: "fs_write_to_file_ext (FS_CREATE_DIR_TREE (os st) wbuf) wbuf FS_MWRITE d = (FS_ESUCCESS, w')"
    and s1: "st1 = st\<lparr>os := w'\<rparr>"
    by auto
  from fs_write_to_file_ext_effect [OF r] obtain p t where p: "os_resolve w' wbuf = Some p"
    and n: "node_at w' p = Some (Reg (take (size_desc d) (data_desc d)) t)"
    by (auto simp: FS_MWRITE_def FS_MAPPEND_def)
  have "\<exists>st2. fs_read st1 name =
      Done ((Some (take (size_desc d) (data_desc d)), Some (length (take (size_desc d) (data_desc d)))), st2)"
  proof (rule fs_read_found [OF assms(3)])
    show "os_resolve (os st1) rbuf = Some p" using p assms(4) by (simp add: s1)
    show "node_at (os st1) p = Some (Reg (take (size_desc d) (data_desc d)) t)"
      using n by (simp add: s1)
    show "length (take (size_desc d) (data_desc d)) \<le> heap_free (os st1)"
      using assms(5,6) by simp
  qed
  with assms(5) show ?thesis by simp
qed

text \<open>
  C5.  Let \<^verbatim>\<open>fs_write\<close> of a payload return success, the path written being \<open>wbuf\<close>.  Let the
  resolution for reading, tried afterwards on the same name, find a path that the
  filesystem resolves to the same location as \<open>wbuf\<close>.  Let the descriptor's size lie
  within its data and let the heap hold the payload.  Then \<^verbatim>\<open>fs_read\<close> of the name returns
  exactly the bytes written and stores the written size in \<^verbatim>\<open>*size\<close>.
\<close>

theorem C5_write_read_roundtrip:
  assumes "fs_write st name d = Done (FS_ESUCCESS, st1)"
    and "fs_concat_path (fs_write_dir st) name = Done (FS_ESUCCESS, wbuf)"
    and "fs_check_search_path st1 name = Done (Inr (rbuf, fstat))"
    and "os_resolve (os st1) rbuf = os_resolve (os st1) wbuf"
    and "size_desc d \<le> length (data_desc d)"
    and "size_desc d \<le> heap_free (os st1)"
  shows "\<exists>st2. fs_read st1 name = Done ((Some (take (size_desc d) (data_desc d)), Some (size_desc d)), st2)"
  using assms by (rule write_then_read_at)

theorem C5_write_read_roundtrip_witness:
  "fs_write s_two ''a.txt'' \<lparr>data_desc = ''hello'', size_desc = 5\<rparr> = Done (FS_ESUCCESS, s_two_hello) \<and>
   fs_check_search_path s_two_hello ''a.txt'' =
     Done (Inr (''a.txt'', \<lparr>st_mode = S_IFREG, st_size = 5, st_mtime = 7\<rparr>)) \<and>
   (\<exists>st2. fs_read s_two_hello ''a.txt'' = Done ((Some ''hello'', Some 5), st2))"
proof -
  have h1: "fs_write s_two ''a.txt'' \<lparr>data_desc = ''hello'', size_desc = 5\<rparr> = Done (FS_ESUCCESS, s_two_hello)"
    by (simp add: s_two_hello_def s_two_def w_box_def run_defs os_defs cfg_defs)
  have h2: "fs_concat_path (fs_write_dir s_two) ''a.txt'' = Done (FS_ESUCCESS, ''./a.txt'')"
    by (simp add: s_two_def cfg_defs)
  have h3: "fs_check_search_path s_two_hello ''a.txt'' =
      Done (Inr (''a.txt'', \<lparr>st_mode = S_IFREG, st_size = 5, st_mtime = 7\<rparr>))"
    by (simp add: s_two_hello_def s_two_def w_box_def run_defs os_defs cfg_defs)
  have h4: "os_resolve (os s_two_hello) ''a.txt'' = os_resolve (os s_two_hello) ''./a.txt''"
    by (simp add: s_two_hello_def s_two_def w_box_def os_defs)
  have h5: "size_desc \<lparr>data_desc = ''hello'', size_desc = 5\<rparr>
      \<le> length (data_desc \<lparr>data_desc = ''hello'', size_desc = 5\<rparr>)"
    by simp
  have h6: "size_desc \<lparr>data_desc = ''hello'', size_desc = 5\<rparr> \<le> heap_free (os s_two_hello)"
    by (simp add: s_two_hello_def s_two_def w_box_def)
  from C5_write_read_roundtrip [OF h1 h2 h3 h4 h5 h6] h1 h3 show ?thesis by simp
qed

section \<open>Paths without the traversal token\<close>

lemma strstr_None_no_occurrence: "strstr s p = None \<Longrightarrow> s \<noteq> pre @ p @ post"
proof (induction s arbitrary: pre)
  case Nil
  then show ?case by (auto split: if_splits)
next
  case (Cons c s)
  from Cons.prems have np: "\<not> prefix p (c # s)" and r: "strstr s p = None"
    by (auto split: if_splits)
  show ?case
  proof (cases pre)
    case Nil
    with np show ?thesis by (auto simp: prefix_def)
  next
    case (Cons x pre')
    with Cons.IH [OF r, of pre'] show ?thesis by auto
  qed
qed

lemma split_on_hd_prefix: "split_on c xs = y # ys \<Longrightarrow> prefix y xs"
  by (induction xs arbitrary: y ys) (auto split: if_splits list.splits)

lemma split_on_member: "m \<in> set (split_on c xs) \<Longrightarrow> \<exists>pre post. xs = pre @ m @ post"
proof (induction xs arbitrary: m)
  case Nil
  then show ?case by simp
next
  case (Cons x xs)
  show ?case
  proof (cases "x = c")
    case True
    with Cons.prems have "m = [] \<or> m \<in> set (split_on c xs)" by auto
    then show ?thesis
    proof
      assume "m = []"
      then have "x # xs = [] @ m @ (x # xs)" by simp
      then show ?thesis by blast
    next
      assume "m \<in> set (split_on c xs)"
      from Cons.IH [OF this] obtain pre post where "xs = pre @ m @ post" by blast
      then have "x # xs = (x # pre) @ m @ post" by simp
      then show ?thesis by blast
    qed
  next
    case False
    obtain y ys where s: "split_on c xs = y # ys"
      using split_on_not_Nil [of c xs] by (cases "split_on c xs") auto
    with False Cons.prems have "m = x # y \<or> m \<in> set ys" by auto
    then show ?thesis
    proof
      assume m: "m = x # y"
      from split_on_hd_prefix [OF s] obtain post where "xs = y @ post" by (auto simp: prefix_def)
      with m have "x # xs = [] @ m @ post" by simp
      then show ?thesis by blast
    next
      assume "m \<in> set ys"
      with s have "m \<in> set (split_on c xs)" by simp
      from Cons.IH [OF this] obtain pre post where "xs = pre @ m @ post" by blast
      then have "x # xs = (x # pre) @ m @ post" by simp
      then show ?thesis by blast
    qed
  qed
qed

lemma no_dotdot_component: "strstr buf dotdot = None \<Longrightarrow> dotdot \<notin> set (components buf)"
  unfolding components_def
  using strstr_None_no_occurrence [of buf dotdot] split_on_member [of dotdot "CHR ''/''" buf]
  by blast

lemma step_prefix: "c \<noteq> dotdot \<Longrightarrow> prefix cur (step cur c)"
  by (simp add: step_def dotdot_def)

lemma walk_prefix: "dotdot \<notin> set cs \<Longrightarrow> walk w cur cs = Some p \<Longrightarrow> prefix cur p"
proof (induction cs arbitrary: cur)
  case Nil
  then show ?case by simp
next
  case (Cons c cs)
  from Cons.prems have "walk w (step cur c) cs = Some p" and "c \<noteq> dotdot" and "dotdot \<notin> set cs"
    by (auto split: if_splits)
  with Cons.IH [of "step cur c"] step_prefix [of c cur] show ?case
    by (auto intro: prefix_order.trans)
qed

lemma wf_world_parent:
  assumes "wf_world w" and "node_at w p = Some n" and "p \<noteq> []"
  shows "is_dir w (butlast p)"
proof -
  from assms(2,3) have "map_of (nodes w) p = Some n" by (simp add: node_at_def)
  then have "p \<in> set (map fst (nodes w))"
    by (auto dest: map_of_SomeD intro: rev_image_eqI)
  with assms(1) show ?thesis by (auto simp: wf_world_def list_all_iff)
qed

lemma wf_world_ancestors:
  "wf_world w \<Longrightarrow> node_at w p = Some n \<Longrightarrow> strict_prefix q p \<Longrightarrow> is_dir w q"
proof (induction p arbitrary: n rule: rev_induct)
  case Nil
  then show ?case by simp
next
  case (snoc x p)
  from wf_world_parent [OF snoc.prems(1,2)] have d: "is_dir w p" by simp
  from snoc.prems(3) have "q = p \<or> strict_prefix q p"
    by (auto simp: strict_prefix_def prefix_snoc)
  then show ?case
  proof
    assume "q = p"
    with d show ?thesis by simp
  next
    assume s: "strict_prefix q p"
    from d obtain t where "node_at w p = Some (Dir t)" by (auto simp: is_dir_node)
    from snoc.IH [OF snoc.prems(1) this s] show ?thesis .
  qed
qed

lemma walk_back:
  assumes "dotdot \<notin> set cs" and "walk w1 cur cs = Some p" and "\<not> is_dir w1 p"
    and "\<And>q. strict_prefix q p \<Longrightarrow> is_dir w q"
  shows "walk w cur cs = Some p"
  using assms(1,2)
proof (induction cs arbitrary: cur)
  case Nil
  then show ?case by simp
next
  case (Cons c cs)
  from Cons.prems have d1: "is_dir w1 cur" and r: "walk w1 (step cur c) cs = Some p"
    and nd: "dotdot \<notin> set cs"
    by (auto split: if_splits)
  from walk_prefix [OF Cons.prems] have "prefix cur p" .
  moreover from d1 assms(3) have "cur \<noteq> p" by auto
  ultimately have "strict_prefix cur p" by (simp add: strict_prefix_def)
  then have "is_dir w cur" by (rule assms(4))
  with Cons.IH [OF nd r] show ?case by simp
qed

text \<open>A file that a path reaches after directories were added is reached by it before.\<close>

lemma grows_reg_resolve_back:
  assumes "grows w w1" and "wf_world w" and "strstr buf dotdot = None"
    and "os_resolve w1 buf = Some p" and "node_at w1 p = Some (Reg c t)"
  shows "os_resolve w buf = Some p \<and> node_at w p = Some (Reg c t)"
proof -
  from assms(1,5) have n: "node_at w p = Some (Reg c t)"
    unfolding grows_def by (metis node.distinct(1) option.inject)
  have nd: "\<not> is_dir w1 p" using assms(5) by (simp add: is_dir_def)
  have anc: "is_dir w q" if "strict_prefix q p" for q
    using wf_world_ancestors [OF assms(2) n that] .
  from assms(4) have ne: "buf \<noteq> []"
    and w1: "walk w1 (if hd buf = CHR ''/'' then [] else cwd w1) (components buf) = Some p"
    by (auto simp: os_resolve_def split: if_splits)
  from walk_back [OF no_dotdot_component [OF assms(3)] w1 nd anc]
  have "walk w (if hd buf = CHR ''/'' then [] else cwd w1) (components buf) = Some p" .
  with ne grows_cwd [OF assms(1)] n show ?thesis by (auto simp: os_resolve_def)
qed

section \<open>Claims about appending\<close>

lemma type_of_mode_not_none: "type_of_mode m \<noteq> FS_FILETYPE_NONE"
  by (cases m) (simp_all add: type_of_mode_def S_ISREG_def S_ISDIR_def S_ISLNK_def)

lemma fs_exists_failure_single:
  assumes "fs_search_path st \<noteq> []" and "hd FS_PATH_SEP \<notin> set (fs_search_path st)"
    and "fs_concat_path (fs_search_path st) name = Done (FS_ESUCCESS, buf)"
    and "fs_exists st name = Done FS_EFAILURE"
  shows "os_stat (os st) buf = None"
proof (cases "os_stat (os st) buf")
  case None
  then show ?thesis .
next
  case (Some s)
  have g: "fs_get_template (fs_search_path st) = Some (fs_search_path st, [])"
    using assms(1,2) by (rule fs_get_template_single)
  have "fs_check_search_path st name = Done (Inr (buf, s))"
    unfolding fs_check_search_path_def using assms(1,3) g Some
    by (subst search_loop.simps) simp
  with assms(1,4) type_of_mode_not_none [of "st_mode s"] show ?thesis
    by (simp add: fs_exists_def fs_get_type_def)
qed

lemma fs_append_effect:
  assumes "fs_append st name d = Done (FS_ESUCCESS, st1)"
  shows "\<exists>buf w1 p t. fs_write_dir st \<noteq> [] \<and>
     fs_concat_path (fs_write_dir st) name = Done (FS_ESUCCESS, buf) \<and>
     grows (os st) w1 \<and> strstr buf dotdot = None \<and>
     os_resolve w1 buf = Some p \<and> os_resolve (os st1) buf = Some p \<and>
     node_at (os st1) p = Some (Reg (content w1 p @ take (size_desc d) (data_desc d)) t) \<and>
     fs_write_dir st1 = fs_write_dir st \<and> fs_search_path st1 = fs_search_path st"
proof -
  from fs_append_success [OF assms] obtain buf w' where ne: "fs_write_dir st \<noteq> []"
    and c: "fs_concat_path (fs_write_dir st) name = Done (FS_ESUCCESS, buf)"
    and r: "fs_write_to_file_ext (FS_CREATE_DIR_TREE (os st) buf) buf FS_MAPPEND d = (FS_ESUCCESS, w')"
    and s1: "st1 = st\<lparr>os := w'\<rparr>"
    by blast
  define w1 where "w1 = FS_CREATE_DIR_TREE (os st) buf"
  have g: "grows (os st) w1"
    unfolding w1_def by (rule FS_CREATE_DIR_TREE_grows)
  from fs_write_to_file_ext_effect [OF r] obtain p t where "os_resolve w1 buf = Some p"
    "os_resolve w' buf = Some p"
    "node_at w' p = Some (Reg (content w1 p @ take (size_desc d) (data_desc d)) t)"
    "strstr buf dotdot = None"
    unfolding w1_def by auto
  with ne c g s1 show ?thesis by auto
qed

lemma append_append_read:
  assumes "fs_search_path st = fs_write_dir st"
    and "CHR '';'' \<notin> set (fs_write_dir st)"
    and "wf_world (os st)"
    and "fs_exists st name = Done FS_EFAILURE"
    and "size_desc a \<le> length (data_desc a)"
    and "size_desc b \<le> length (data_desc b)"
    and "fs_append st name a = Done (FS_ESUCCESS, st1)"
    and "fs_append st1 name b = Done (FS_ESUCCESS, st2)"
    and "size_desc a + size_desc b \<le> heap_free (os st2)"
  shows "\<exists>st3. fs_read st2 name =
     Done ((Some (take (size_desc a) (data_desc a) @ take (size_desc b) (data_desc b)),
            Some (size_desc a + size_desc b)), st3)"
proof -
  define A where "A = take (size_desc a) (data_desc a)"
  define B where "B = take (size_desc b) (data_desc b)"
  have sep: "hd FS_PATH_SEP \<notin> set (fs_write_dir st)"
    using assms(2) by (simp add: FS_PATH_SEP_def)
  from fs_append_effect [OF assms(7)] obtain buf w1 p t where ne: "fs_write_dir st \<noteq> []"
    and c: "fs_concat_path (fs_write_dir st) name = Done (FS_ESUCCESS, buf)"
    and g: "grows (os st) w1" and nd: "strstr buf dotdot = None"
    and r1: "os_resolve w1 buf = Some p" and r1': "os_resolve (os st1) buf = Some p"
    and n1: "node_at (os st1) p = Some (Reg (content w1 p @ A) t)"
    and cfg1: "fs_write_dir st1 = fs_write_dir st" "fs_search_path st1 = fs_search_path st"
    unfolding A_def by blast
  have fresh: "os_stat (os st) buf = None"
    using fs_exists_failure_single [of st name buf] ne sep c assms(1,4) by simp
  have empty: "content w1 p = []"
  proof (cases "node_at w1 p")
    case None
    then show ?thesis by (simp add: content_def)
  next
    case (Some n)
    show ?thesis
    proof (cases n)
      case (Dir t')
      with Some show ?thesis by (simp add: content_def)
    next
      case (Reg c' t')
      with Some grows_reg_resolve_back [OF g assms(3) nd r1, of c' t']
      have "os_resolve (os st) buf = Some p" "node_at (os st) p = Some (Reg c' t')" by auto
      then have "os_stat (os st) buf \<noteq> None" by (simp add: os_stat_def)
      with fresh show ?thesis by simp
    qed
  qed
  from fs_append_effect [OF assms(8)] cfg1 c obtain w3 p' t' where g3: "grows (os st1) w3"
    and r3: "os_resolve w3 buf = Some p'" and r3': "os_resolve (os st2) buf = Some p'"
    and n3: "node_at (os st2) p' = Some (Reg (content w3 p' @ B) t')"
    and cfg2: "fs_search_path st2 = fs_search_path st1"
    unfolding B_def by auto
  from grows_resolve [OF g3 r1'] r3 have pp: "p' = p" by simp
  from grows_node [OF g3 n1] empty have "content w3 p = A" by (simp add: content_def)
  with n3 pp have n: "node_at (os st2) p = Some (Reg (A @ B) t')" by simp
  have "\<exists>st3. fs_read st2 name = Done ((Some (A @ B), Some (length (A @ B))), st3)"
  proof (rule fs_read_single)
    show "fs_search_path st2 \<noteq> []" using ne assms(1) cfg1 cfg2 by simp
    show "hd FS_PATH_SEP \<notin> set (fs_search_path st2)" using sep assms(1) cfg1 cfg2 by simp
    show "fs_concat_path (fs_search_path st2) name = Done (FS_ESUCCESS, buf)"
      using c assms(1) cfg1 cfg2 by simp
    show "os_resolve (os st2) buf = Some p" using r3' pp by simp
    show "node_at (os st2) p = Some (Reg (A @ B) t')" by (rule n)
    show "length (A @ B) \<le> heap_free (os st2)"
      using assms(5,6,9) by (simp add: A_def B_def)
  qed
  with assms(5,6) show ?thesis by (simp add: A_def B_def)
qed

text \<open>
  C6.  Let the search path and the write directory be the same single template.  First
  part: in a well-formed world where \<^verbatim>\<open>fs_exists\<close> does not find the name, two successful
  calls of \<^verbatim>\<open>fs_append\<close> with the payloads \<open>A\<close> and \<open>B\<close> are followed by a read that returns
  exactly \<open>A @ B\<close> and the size of both.  Second part: when the name holds the bytes
  \<open>old\<close>, a successful \<^verbatim>\<open>fs_write\<close> is followed by a read that returns exactly the
  payload written, whatever \<open>old\<close> was.
\<close>

theorem C6_append_concatenates_write_replaces:
  assumes "fs_search_path st = fs_write_dir st"
    and "CHR '';'' \<notin> set (fs_write_dir st)"
  shows "(wf_world (os st) \<and> fs_exists st name = Done FS_EFAILURE \<and>
      size_desc a \<le> length (data_desc a) \<and> size_desc b \<le> length (data_desc b) \<and>
      fs_append st name a = Done (FS_ESUCCESS, st1) \<and>
      fs_append st1 name b = Done (FS_ESUCCESS, st2) \<and>
      size_desc a + size_desc b \<le> heap_free (os st2) \<longrightarrow>
      (\<exists>st3. fs_read st2 name =
         Done ((Some (take (size_desc a) (data_desc a) @ take (size_desc b) (data_desc b)),
                Some (size_desc a + size_desc b)), st3))) \<and>
     (fs_read st name = Done ((Some old, Some (length old)), st') \<and>
      size_desc d \<le> length (data_desc d) \<and>
      fs_write st name d = Done (FS_ESUCCESS, st1') \<and>
      size_desc d \<le> heap_free (os st1') \<longrightarrow>
      (\<exists>st2'. fs_read st1' name =
         Done ((Some (take (size_desc d) (data_desc d)), Some (size_desc d)), st2')))"
  using append_append_read [OF assms, of name a b st1 st2]
    write_then_read [OF assms, of d name st1']
  by blast

theorem C6_append_concatenates_write_replaces_witness:
  "fs_exists s_box ''a.txt'' = Done FS_EFAILURE \<and>
   fs_append s_box ''a.txt'' \<lparr>data_desc = ''hello'', size_desc = 5\<rparr> = Done (FS_ESUCCESS, s_hello) \<and>
   fs_append s_hello ''a.txt'' \<lparr>data_desc = '' you'', size_desc = 4\<rparr> = Done (FS_ESUCCESS, s_hello_you) \<and>
   (\<exists>st3. fs_read s_hello_you ''a.txt'' = Done ((Some ''hello you'', Some 9), st3)) \<and>
   fs_write s_hello ''a.txt'' \<lparr>data_desc = ''hi'', size_desc = 2\<rparr> = Done (FS_ESUCCESS, s_hi) \<and>
   (\<exists>st2. fs_read s_hi ''a.txt'' = Done ((Some ''hi'', Some 2), st2))"
proof -
  have h1: "fs_search_path s_box = fs_write_dir s_box" "CHR '';'' \<notin> set (fs_write_dir s_box)"
    by (simp_all add: s_box_def)
  have h2: "fs_search_path s_hello = fs_write_dir s_hello" "CHR '';'' \<notin> set (fs_write_dir s_hello)"
    by (simp_all add: s_hello_def s_box_def)
  have wf: "wf_world (os s_box)"
    by (simp add: wf_world_def s_box_def w_box_def os_defs)
  have e: "fs_exists s_box ''a.txt'' = Done FS_EFAILURE"
    by (simp add: s_box_def w_box_def run_defs os_defs cfg_defs)
  have a1: "fs_append s_box ''a.txt'' \<lparr>data_desc = ''hello'', size_desc = 5\<rparr> = Done (FS_ESUCCESS, s_hello)"
    by (simp add: s_hello_def s_box_def w_box_def run_defs os_defs cfg_defs)
  have a2: "fs_append s_hello ''a.txt'' \<lparr>data_desc = '' you'', size_desc = 4\<rparr> = Done (FS_ESUCCESS, s_hello_you)"
    by (simp add: s_hello_you_def s_hello_def s_box_def w_box_def run_defs os_defs cfg_defs)
  have hp: "size_desc \<lparr>data_desc = ''hello'', size_desc = 5\<rparr> + size_desc \<lparr>data_desc = '' you'', size_desc = 4\<rparr>
      \<le> heap_free (os s_hello_you)"
    by (simp add: s_hello_you_def s_box_def w_box_def)
  have r0: "fs_read s_hello ''a.txt'' = Done ((Some ''hello'', Some (length ''hello'')),
      s_hello\<lparr>os := (os s_hello)\<lparr>heap_free := 995\<rparr>\<rparr>)"
    by (simp add: s_hello_def s_box_def w_box_def run_defs os_defs cfg_defs)
  have w: "fs_write s_hello ''a.txt'' \<lparr>data_desc = ''hi'', size_desc = 2\<rparr> = Done (FS_ESUCCESS, s_hi)"
    by (simp add: s_hi_def s_hello_def s_box_def w_box_def run_defs os_defs cfg_defs)
  have hw: "size_desc \<lparr>data_desc = ''hi'', size_desc = 2\<rparr> \<le> heap_free (os s_hi)"
    by (simp add: s_hi_def s_box_def w_box_def)
  from C6_append_concatenates_write_replaces [OF h1, where name = "''a.txt''"
      and a = "\<lparr>data_desc = ''hello'', size_desc = 5\<rparr>"
      and b = "\<lparr>data_desc = '' you'', size_desc = 4\<rparr>"
      and ?st1.0 = s_hello and ?st2.0 = s_hello_you] wf e a1 a2 hp
  have c1: "\<exists>st3. fs_read s_hello_you ''a.txt'' = Done ((Some ''hello you'', Some 9), st3)"
    by simp
  from C6_append_concatenates_write_replaces [OF h2, where name = "''a.txt''"
      and old = "''hello''" and st' = "s_hello\<lparr>os := (os s_hello)\<lparr>heap_free := 995\<rparr>\<rparr>"
      and d = "\<lparr>data_desc = ''hi'', size_desc = 2\<rparr>" and st1' = s_hi] r0 w hw
  have c2: "\<exists>st2. fs_read s_hi ''a.txt'' = Done ((Some ''hi'', Some 2), st2)"
    by simp
  from e a1 a2 c1 w c2 show ?thesis by simp
qed

section \<open>Claims about directory creation\<close>

lemma strrchr_None: "strrchr s c = None \<longleftrightarrow> c \<notin> set s"
  by (induction s) (auto split: option.splits)

lemma strrchr_Some:
  "strrchr s c = Some i \<Longrightarrow> s = take i s @ c # drop (Suc i) s \<and> c \<notin> set (drop (Suc i) s)"
proof (induction s arbitrary: i)
  case Nil
  then show ?case by simp
next
  case (Cons x xs)
  show ?case
  proof (cases "strrchr xs c")
    case None
    with Cons.prems have "x = c" "i = 0" by (auto split: if_splits)
    with None show ?thesis by (simp add: strrchr_None)
  next
    case (Some j)
    with Cons.prems have "i = Suc j" by simp
    with Cons.IH [OF Some] show ?thesis by simp
  qed
qed

lemma strrchr_last: "c \<notin> set s \<Longrightarrow> strrchr (P @ c # s) c = Some (length P)"
  by (induction P) (auto simp: strrchr_None [THEN iffD2] split: option.splits)

lemma split_on_append_sep: "split_on c (a @ c # b) = split_on c a @ split_on c b"
proof (induction a)
  case Nil
  then show ?case by simp
next
  case (Cons x a)
  obtain y ys where "split_on c a = y # ys"
    using split_on_not_Nil [of c a] by (cases "split_on c a") auto
  with Cons show ?case by simp
qed

lemma walk_append:
  "walk w cur (cs1 @ cs2) = (case walk w cur cs1 of None \<Rightarrow> None | Some q \<Rightarrow> walk w q cs2)"
  by (induction cs1 arbitrary: cur) auto

lemma walk_nonempty_dir: "walk w q cs = Some p \<Longrightarrow> cs \<noteq> [] \<Longrightarrow> is_dir w q"
  by (cases cs) (auto split: if_splits)

text \<open>The part of a path before one of its slashes resolves to a directory.\<close>

lemma os_resolve_front:
  assumes "os_resolve w (P @ CHR ''/'' # rest) = Some p" and "P \<noteq> []"
  shows "\<exists>q. os_resolve w P = Some q \<and> is_dir w q"
proof -
  define start where "start = (if hd P = CHR ''/'' then [] else cwd w)"
  have h: "hd (P @ CHR ''/'' # rest) = hd P"
    using assms(2) by simp
  from assms(1) have "walk w start (components (P @ CHR ''/'' # rest)) = Some p"
    by (simp add: os_resolve_def start_def h)
  then have "walk w start (components P @ components rest) = Some p"
    by (simp only: components_def split_on_append_sep)
  then obtain q where q: "walk w start (components P) = Some q"
    and r: "walk w q (components rest) = Some p"
    by (auto simp: walk_append split: option.splits)
  from walk_nonempty_dir [OF r] have "is_dir w q"
    by (simp add: components_def split_on_not_Nil)
  with q assms(2) show ?thesis by (simp add: os_resolve_def start_def)
qed

lemma os_mkdir_existing:
  "os_resolve w path = Some p \<Longrightarrow> node_at w p \<noteq> None \<Longrightarrow> os_mkdir w path = (- 1, w)"
  by (simp add: os_mkdir_def)

lemma os_mkdir_empty: "os_mkdir w [] = (- 1, w)"
  by (simp add: os_mkdir_def os_resolve_def)

text \<open>On a path that exists \<^verbatim>\<open>_fs_make_dirs\<close> changes nothing and reports the failure.\<close>

lemma fs_make_dirs_existing:
  "os_resolve w path = Some p \<Longrightarrow> node_at w p \<noteq> None \<Longrightarrow>
     fs_make_dirs w path = (FS_EMKDIRFAIL, w)"
proof (induction w path arbitrary: p rule: fs_make_dirs.induct)
  case (1 w path)
  show ?case
  proof (cases "strrchr path CHR ''/''")
    case None
    with "1.prems" show ?thesis
      by (subst fs_make_dirs.simps) (simp add: os_mkdir_existing)
  next
    case (Some i)
    define P where "P = take i path"
    from strrchr_Some [OF Some] have path: "path = P @ CHR ''/'' # drop (Suc i) path"
      by (simp add: P_def)
    have "fs_make_dirs w P = (FS_EMKDIRFAIL, w)"
    proof (cases "P = []")
      case True
      then show ?thesis
        by (subst fs_make_dirs.simps) (simp add: os_mkdir_empty)
    next
      case False
      from "1.prems"(1) path have "os_resolve w (P @ CHR ''/'' # drop (Suc i) path) = Some p"
        by simp
      from os_resolve_front [OF this False] obtain q where "os_resolve w P = Some q" "is_dir w q"
        by blast
      then show ?thesis
        using "1.IH" [OF Some, of q] by (auto simp: P_def is_dir_node)
    qed
    with Some "1.prems" show ?thesis
      by (subst fs_make_dirs.simps) (simp add: P_def os_mkdir_existing)
  qed
qed

lemma path_of_snoc: "path_of d (segs @ [seg]) = path_of d segs @ CHR ''/'' # seg"
  by (simp add: path_of_def)

lemma path_of_join: "segs \<noteq> [] \<Longrightarrow> path_of d segs = d @ CHR ''/'' # join segs"
  by (cases segs) (simp_all add: path_of_def)

lemma fs_make_dirs_calls:
  "snd (fs_make_dirs w path) = foldl (\<lambda>w p. snd (os_mkdir w p)) w (mkdir_calls path)"
proof (induction w path rule: fs_make_dirs.induct)
  case (1 w path)
  show ?case
  proof (cases "strrchr path CHR ''/''")
    case None
    then show ?thesis
      by (subst fs_make_dirs.simps, subst mkdir_calls.simps) simp
  next
    case (Some i)
    with "1.IH" [OF Some] show ?thesis
      by (subst fs_make_dirs.simps, subst mkdir_calls.simps) (simp add: Let_def)
  qed
qed

lemma mkdir_calls_snoc:
  "CHR ''/'' \<notin> set seg \<Longrightarrow> mkdir_calls (P @ CHR ''/'' # seg) = mkdir_calls P @ [P @ CHR ''/'' # seg]"
  by (subst mkdir_calls.simps) (simp add: strrchr_last)

lemma tl_prefixes_snoc: "tl (prefixes (xs @ [x])) = tl (prefixes xs) @ [xs @ [x]]"
  by (cases "prefixes xs") simp_all

lemma mkdir_calls_path_of:
  "list_all plain segs \<Longrightarrow>
     mkdir_calls (path_of d segs) = mkdir_calls d @ map (path_of d) (tl (prefixes segs))"
proof (induction segs rule: rev_induct)
  case Nil
  then show ?case by (simp add: path_of_def)
next
  case (snoc seg segs)
  then have "CHR ''/'' \<notin> set seg" by (simp add: plain_def)
  with snoc show ?case
    by (simp add: path_of_snoc mkdir_calls_snoc tl_prefixes_snoc)
qed

text \<open>Creating one more name below a directory that a path resolves to.\<close>

lemma os_mkdir_below:
  assumes "os_resolve w P = Some q" and "is_dir w q" and "plain seg"
    and "node_at w (q @ [seg]) = None"
  shows "os_mkdir w (P @ CHR ''/'' # seg) =
      (0, w\<lparr>nodes := AList.update (q @ [seg]) (Dir (now w)) (nodes w)\<rparr>)"
    and "os_resolve w' P = Some q \<Longrightarrow> is_dir w' q \<Longrightarrow>
      os_resolve w' (P @ CHR ''/'' # seg) = Some (q @ [seg])"
proof -
  from assms(1) have ne: "P \<noteq> []" by (auto simp: os_resolve_def split: if_splits)
  have h: "hd (P @ CHR ''/'' # seg) = hd P" using ne by simp
  have c: "components (P @ CHR ''/'' # seg) = components P @ [seg]"
    using assms(3) by (simp add: components_def split_on_append_sep split_on_no_sep plain_def)
  have st: "step q seg = q @ [seg]"
    using assms(3) by (simp add: step_def plain_def)
  have r: "os_resolve v P = Some q \<Longrightarrow> is_dir v q \<Longrightarrow>
      os_resolve v (P @ CHR ''/'' # seg) = Some (q @ [seg])" for v
    using ne by (auto simp: os_resolve_def h c walk_append st split: if_splits)
  from r [OF assms(1,2)] assms(2,4)
  show "os_mkdir w (P @ CHR ''/'' # seg) =
      (0, w\<lparr>nodes := AList.update (q @ [seg]) (Dir (now w)) (nodes w)\<rparr>)"
    by (simp add: os_mkdir_def)
  show "os_resolve w' P = Some q \<Longrightarrow> is_dir w' q \<Longrightarrow>
      os_resolve w' (P @ CHR ''/'' # seg) = Some (q @ [seg])"
    by (rule r)
qed

text \<open>
  Below a directory \<open>bp\<close> that the path \<open>d\<close> resolves to, where none of the names
  \<open>segs\<close> exists yet, \<^verbatim>\<open>_fs_make_dirs\<close> creates the whole chain.
\<close>

lemma fs_make_dirs_chain:
  assumes "os_resolve w d = Some bp" and "is_dir w bp"
  shows "list_all plain segs \<Longrightarrow>
    (\<forall>ps. prefix ps segs \<and> ps \<noteq> [] \<longrightarrow> node_at w (bp @ ps) = None) \<Longrightarrow>
    grows w (snd (fs_make_dirs w (path_of d segs))) \<and>
    os_resolve (snd (fs_make_dirs w (path_of d segs))) (path_of d segs) = Some (bp @ segs) \<and>
    (\<forall>ps. prefix ps segs \<longrightarrow> is_dir (snd (fs_make_dirs w (path_of d segs))) (bp @ ps)) \<and>
    (\<forall>p. (\<forall>ps. prefix ps segs \<longrightarrow> p \<noteq> bp @ ps) \<longrightarrow>
       node_at (snd (fs_make_dirs w (path_of d segs))) p = node_at w p) \<and>
    (segs \<noteq> [] \<longrightarrow> fst (fs_make_dirs w (path_of d segs)) = FS_ESUCCESS)"
proof (induction segs rule: rev_induct)
  case Nil
  from assms have "fs_make_dirs w d = (FS_EMKDIRFAIL, w)"
    by (intro fs_make_dirs_existing [of w d bp]) (auto simp: is_dir_node)
  with assms show ?case by (simp add: path_of_def grows_refl)
next
  case (snoc seg segs)
  define P where "P = path_of d segs"
  define w1 where "w1 = snd (fs_make_dirs w P)"
  define w2 where "w2 = w1\<lparr>nodes := AList.update (bp @ segs @ [seg]) (Dir (now w1)) (nodes w1)\<rparr>"
  from snoc.prems(1) have pl: "list_all plain segs" and ps: "plain seg" by simp_all
  have free: "\<forall>ps. prefix ps segs \<and> ps \<noteq> [] \<longrightarrow> node_at w (bp @ ps) = None"
    using snoc.prems(2) by (auto intro: prefix_prefix)
  from snoc.IH [OF pl free] have g1: "grows w w1"
    and r1: "os_resolve w1 P = Some (bp @ segs)"
    and d1: "\<forall>ps. prefix ps segs \<longrightarrow> is_dir w1 (bp @ ps)"
    and f1: "\<forall>p. (\<forall>ps. prefix ps segs \<longrightarrow> p \<noteq> bp @ ps) \<longrightarrow> node_at w1 p = node_at w p"
    unfolding P_def w1_def by blast+
  have dl: "is_dir w1 (bp @ segs)" using d1 by simp
  have "node_at w (bp @ segs @ [seg]) = None"
    using snoc.prems(2) by (simp add: prefix_order.refl)
  moreover have "\<forall>ps. prefix ps segs \<longrightarrow> bp @ segs @ [seg] \<noteq> bp @ ps"
    by (auto dest: prefix_length_le)
  ultimately have n1: "node_at w1 ((bp @ segs) @ [seg]) = None"
    using f1 by simp
  have sl: "CHR ''/'' \<notin> set seg" using ps by (simp add: plain_def)
  have mk: "os_mkdir w1 (P @ CHR ''/'' # seg) = (0, w2)"
    using os_mkdir_below(1) [OF r1 dl ps n1] by (simp add: w2_def)
  have run: "fs_make_dirs w (path_of d (segs @ [seg])) = (FS_ESUCCESS, w2)"
    unfolding path_of_snoc P_def [symmetric]
    using mk by (subst fs_make_dirs.simps) (simp add: strrchr_last sl Let_def w1_def)
  have n2: "node_at w2 p = (if p = bp @ segs @ [seg] then Some (Dir (now w1)) else node_at w1 p)" for p
    by (simp add: w2_def node_at_update)
  have g12: "grows w1 w2"
    using os_mkdir_grows [of w1 "P @ CHR ''/'' # seg"] mk by simp
  have g2: "grows w w2" using g1 g12 by (rule grows_trans)
  have r2: "os_resolve w2 (path_of d (segs @ [seg])) = Some (bp @ segs @ [seg])"
    unfolding path_of_snoc P_def [symmetric]
    using os_mkdir_below(2) [OF r1 dl ps n1, of w2] grows_resolve [OF g12 r1]
      grows_is_dir [OF g12 dl]
    by simp
  have d2: "is_dir w2 (bp @ ps')" if "prefix ps' (segs @ [seg])" for ps'
  proof (cases "ps' = segs @ [seg]")
    case True
    then show ?thesis by (simp add: is_dir_def n2)
  next
    case False
    with that have "prefix ps' segs" by (simp add: prefix_snoc)
    with d1 grows_is_dir [OF g12] show ?thesis by blast
  qed
  have f2: "node_at w2 p = node_at w p" if "\<forall>ps'. prefix ps' (segs @ [seg]) \<longrightarrow> p \<noteq> bp @ ps'" for p
  proof -
    from that have "p \<noteq> bp @ segs @ [seg]" by (auto simp: prefix_order.refl)
    moreover from that have "\<forall>ps'. prefix ps' segs \<longrightarrow> p \<noteq> bp @ ps'"
      by (auto simp: prefix_snoc)
    ultimately show ?thesis using f1 by (simp add: n2)
  qed
  from g2 r2 d2 f2 show ?case by (simp add: run)
qed

lemma set_tl_prefixes: "set (tl (prefixes xs)) = {ps. prefix ps xs \<and> ps \<noteq> []}"
  by (cases xs) (auto simp: in_set_prefixes prefix_Cons)

lemma fs_concat_path_dir_template:
  assumes "CHR ''?'' \<notin> set d" and "length (d @ CHR ''/'' # name) < FS_MAX_PATH"
  shows "fs_concat_path (d @ ''/?'') name = Done (FS_ESUCCESS, d @ CHR ''/'' # name)"
proof -
  have m: "hd FS_PATH_MARK = CHR ''?''" by (simp add: FS_PATH_MARK_def)
  have pre: "hd FS_PATH_MARK \<notin> set (d @ ''/'')" using assms(1) by (simp add: m)
  have t: "d @ ''/?'' = (d @ ''/'') @ hd FS_PATH_MARK # []" by (simp add: m)
  have u: "upto_last_mark (d @ ''/?'') = d @ ''/?''"
    by (subst t, subst upto_last_mark_split [OF pre]) (simp add: m)
  have g: "gsub_spec (d @ ''/?'') name = d @ CHR ''/'' # name"
    by (subst t, subst gsub_split [OF pre]) (simp add: gsub_spec_def)
  from gsub_loop_fits [of "[]" "d @ ''/?''" name] assms(2) show ?thesis
    by (simp add: fs_concat_path_def u g)
qed

lemma fs_mkdir_existing:
  assumes "fs_write_dir st \<noteq> []"
    and "fs_concat_path (fs_write_dir st) path = Done (FS_ESUCCESS, buf)"
    and "os_stat (os st) buf \<noteq> None"
  shows "fs_mkdir st path = Done (FS_EMKDIRFAIL, st)"
proof -
  from assms(3) obtain p where "os_resolve (os st) buf = Some p" "node_at (os st) p \<noteq> None"
    by (auto simp: os_stat_def split: option.splits)
  then have "fs_make_dirs (os st) buf = (FS_EMKDIRFAIL, os st)"
    by (rule fs_make_dirs_existing)
  with assms(1,2) show ?thesis by (simp add: fs_mkdir_def)
qed

lemma fs_mkdir_chain:
  assumes "fs_write_dir st = d @ ''/?''" and "CHR ''?'' \<notin> set d"
    and "os_resolve (os st) d = Some bp" and "is_dir (os st) bp"
    and "segs \<noteq> []" and "list_all plain segs"
    and "length (path_of d segs) < FS_MAX_PATH"
    and "list_all (\<lambda>ps. node_at (os st) (bp @ ps) = None) (tl (prefixes segs))"
  shows "\<exists>st'. fs_mkdir st (join segs) = Done (FS_ESUCCESS, st') \<and>
    list_all (\<lambda>ps. is_dir (os st') (bp @ ps)) (prefixes segs) \<and>
    os st' = foldl (\<lambda>w p. snd (os_mkdir w p)) (os st) (map (path_of d) (tl (prefixes segs)))"
proof -
  define buf where "buf = path_of d segs"
  have b: "buf = d @ CHR ''/'' # join segs"
    unfolding buf_def using assms(5) by (rule path_of_join)
  have c: "fs_concat_path (fs_write_dir st) (join segs) = Done (FS_ESUCCESS, buf)"
    using fs_concat_path_dir_template [OF assms(2), of "join segs"] assms(1,7)
    by (simp add: b buf_def [symmetric])
  have free: "\<forall>ps. prefix ps segs \<and> ps \<noteq> [] \<longrightarrow> node_at (os st) (bp @ ps) = None"
  proof (intro allI impI)
    fix ps assume "prefix ps segs \<and> ps \<noteq> []"
    then have "ps \<in> set (tl (prefixes segs))"
      by (simp add: set_tl_prefixes)
    with assms(8) show "node_at (os st) (bp @ ps) = None"
      by (simp add: list_all_iff)
  qed
  define w' where "w' = snd (fs_make_dirs (os st) buf)"
  from fs_make_dirs_chain [OF assms(3,4,6) free] assms(5)
  have d': "\<forall>ps. prefix ps segs \<longrightarrow> is_dir w' (bp @ ps)"
    and ok: "fst (fs_make_dirs (os st) buf) = FS_ESUCCESS"
    unfolding w'_def buf_def by blast+
  have base: "foldl (\<lambda>w p. snd (os_mkdir w p)) (os st) (mkdir_calls d) = os st"
    using fs_make_dirs_existing [OF assms(3), of ] assms(4) fs_make_dirs_calls [of "os st" d]
    by (auto simp: is_dir_node)
  have "w' = foldl (\<lambda>w p. snd (os_mkdir w p)) (os st) (map (path_of d) (tl (prefixes segs)))"
    unfolding w'_def buf_def fs_make_dirs_calls mkdir_calls_path_of [OF assms(6)]
    by (simp add: base)
  moreover have "list_all (\<lambda>ps. is_dir w' (bp @ ps)) (prefixes segs)"
    using d' by (simp add: list_all_iff in_set_prefixes)
  moreover have "fs_mkdir st (join segs) = Done (FS_ESUCCESS, st\<lparr>os := w'\<rparr>)"
    using assms(1) c ok by (simp add: fs_mkdir_def Let_def w'_def)
  ultimately show ?thesis by simp
qed

text \<open>
  C7.  First part: with a write directory configured, \<^verbatim>\<open>fs_mkdir\<close> on a name whose resolved
  path exists returns \<open>FS_EMKDIRFAIL\<close> and changes nothing.  Second part: let the write
  directory be \<open>d\<close> followed by \<^verbatim>\<open>/?\<close>, where \<open>d\<close> resolves to an existing directory
  \<open>bp\<close>, and let none of the paths below \<open>bp\<close> along the plain segments \<open>segs\<close> exist.
  Then \<^verbatim>\<open>fs_mkdir\<close> of the joined segments returns success, every ancestor and the leaf
  are directories afterwards, and the resulting world is that of calling \<^verbatim>\<open>mkdir\<close> on
  the paths of the prefixes of \<open>segs\<close> from the shortest to the longest.
\<close>

theorem C7_mkdir_fails_on_existing_leaf_creates_chain:
  "(fs_write_dir st \<noteq> [] \<and>
    fs_concat_path (fs_write_dir st) path = Done (FS_ESUCCESS, buf) \<and>
    os_stat (os st) buf \<noteq> None \<longrightarrow>
      fs_mkdir st path = Done (FS_EMKDIRFAIL, st)) \<and>
   (fs_write_dir st = d @ ''/?'' \<and> CHR ''?'' \<notin> set d \<and>
    os_resolve (os st) d = Some bp \<and> is_dir (os st) bp \<and>
    segs \<noteq> [] \<and> list_all plain segs \<and> length (path_of d segs) < FS_MAX_PATH \<and>
    list_all (\<lambda>ps. node_at (os st) (bp @ ps) = None) (tl (prefixes segs)) \<longrightarrow>
      (\<exists>st'. fs_mkdir st (join segs) = Done (FS_ESUCCESS, st') \<and>
         list_all (\<lambda>ps. is_dir (os st') (bp @ ps)) (prefixes segs) \<and>
         os st' = foldl (\<lambda>w p. snd (os_mkdir w p)) (os st)
                    (map (path_of d) (tl (prefixes segs)))))"
  using fs_mkdir_existing [of st path buf] fs_mkdir_chain [of st d bp segs]
  by blast

theorem C7_mkdir_fails_on_existing_leaf_creates_chain_witness:
  "fs_mkdir s_box ''a/b/c'' = Done (FS_ESUCCESS, s_abc) \<and>
   map (path_of ''.'') (tl (prefixes [''a'', ''b'', ''c''])) = [''./a'', ''./a/b'', ''./a/b/c''] \<and>
   os s_abc = foldl (\<lambda>w p. snd (os_mkdir w p)) (os s_box) [''./a'', ''./a/b'', ''./a/b/c''] \<and>
   fs_mkdir s_abc ''a/b/c'' = Done (FS_EMKDIRFAIL, s_abc)"
proof -
  have e: "fs_mkdir s_box ''a/b/c'' = Done (FS_ESUCCESS, s_abc)"
    by (simp add: s_abc_def s_box_def w_box_def fs_mkdir_def fs_make_dirs.simps Let_def
        os_defs cfg_defs)
  have h1: "fs_write_dir s_box = ''.'' @ ''/?''" "CHR ''?'' \<notin> set ''.''"
    by (simp_all add: s_box_def)
  have h2: "os_resolve (os s_box) ''.'' = Some [''home'', ''box'']"
    "is_dir (os s_box) [''home'', ''box'']"
    by (simp_all add: s_box_def w_box_def os_defs)
  have h3: "[''a'', ''b'', ''c''] \<noteq> []" "list_all plain [''a'', ''b'', ''c'']"
    "length (path_of ''.'' [''a'', ''b'', ''c'']) < FS_MAX_PATH"
    by (simp_all add: plain_def path_of_def FS_MAX_PATH_def)
  have h4: "list_all (\<lambda>ps. node_at (os s_box) ([''home'', ''box''] @ ps) = None)
      (tl (prefixes [''a'', ''b'', ''c'']))"
    by (simp add: s_box_def w_box_def node_at_def)
  have m: "map (path_of ''.'') (tl (prefixes [''a'', ''b'', ''c''])) = [''./a'', ''./a/b'', ''./a/b/c'']"
    by (simp add: path_of_def)
  have j: "join [''a'', ''b'', ''c''] = ''a/b/c''"
    by simp
  from C7_mkdir_fails_on_existing_leaf_creates_chain [where st = s_box and d = "''.''"
      and bp = "[''home'', ''box'']" and segs = "[''a'', ''b'', ''c'']"] h1 h2 h3 h4
  obtain st' where "fs_mkdir s_box (join [''a'', ''b'', ''c'']) = Done (FS_ESUCCESS, st')"
    and "os st' = foldl (\<lambda>w p. snd (os_mkdir w p)) (os s_box)
          (map (path_of ''.'') (tl (prefixes [''a'', ''b'', ''c''])))"
    by blast
  with e have o: "os s_abc = foldl (\<lambda>w p. snd (os_mkdir w p)) (os s_box) [''./a'', ''./a/b'', ''./a/b/c'']"
    by (simp only: j m) simp
  have k1: "fs_write_dir s_abc \<noteq> []"
    by (simp add: s_abc_def s_box_def)
  have k2: "fs_concat_path (fs_write_dir s_abc) ''a/b/c'' = Done (FS_ESUCCESS, ''./a/b/c'')"
    by (simp add: s_abc_def s_box_def cfg_defs)
  have k3: "os_stat (os s_abc) ''./a/b/c'' \<noteq> None"
    by (simp add: s_abc_def s_box_def w_box_def os_defs)
  from C7_mkdir_fails_on_existing_leaf_creates_chain [where st = s_abc and path = "''a/b/c''"
      and buf = "''./a/b/c''"] k1 k2 k3
  have f: "fs_mkdir s_abc ''a/b/c'' = Done (FS_EMKDIRFAIL, s_abc)"
    by blast
  from e m o f show ?thesis by simp
qed

section \<open>Further properties of the substitution and of the streams\<close>

text \<open>
  What \<^verbatim>\<open>_fs_concat_path\<close> returns when the result fits: the substitution applied to the part
  of the template that ends with its last marker.  For a template that ends with the
  marker, as all templates_spec of the documentation do, this is the substitution of the claim.
\<close>

lemma fs_concat_path_fits:
  "length (gsub_spec (upto_last_mark t) r) < FS_MAX_PATH \<Longrightarrow>
     fs_concat_path t r = Done (FS_ESUCCESS, gsub_spec (upto_last_mark t) r)"
  using gsub_loop_fits [of "[]" t r] by (simp add: fs_concat_path_def)

lemma upto_last_mark_ends: "upto_last_mark (t @ FS_PATH_MARK) = t @ FS_PATH_MARK"
  by (induction t) (simp_all add: FS_PATH_MARK_def)

lemma fs_concat_path_marker_last:
  "length (gsub_spec (t @ FS_PATH_MARK) r) < FS_MAX_PATH \<Longrightarrow>
     fs_concat_path (t @ FS_PATH_MARK) r = Done (FS_ESUCCESS, gsub_spec (t @ FS_PATH_MARK) r)"
  using fs_concat_path_fits [of "t @ FS_PATH_MARK" r] by (simp add: upto_last_mark_ends)

text \<open>
  When the result does not fit, the function either has written outside the buffer or
  returns \<open>FS_ETOOLONG\<close> with the buffer filled to its last byte: the error is returned
  without an out-of-bounds write only when an iteration ends at exactly \<open>FS_MAX_PATH\<close> bytes.
\<close>

lemma fs_concat_path_over:
  "FS_MAX_PATH \<le> length (gsub_spec (upto_last_mark t) r) \<Longrightarrow>
     fs_concat_path t r = OutOfBounds \<or>
     (\<exists>b. fs_concat_path t r = Done (FS_ETOOLONG, b) \<and> length b = FS_MAX_PATH)"
  using gsub_loop_over [of "[]" t r] by (simp add: fs_concat_path_def FS_MAX_PATH_def)

text \<open>
  The raw write closes the stream it opened on each of its paths, so \<^verbatim>\<open>fs_write\<close> and
  \<^verbatim>\<open>fs_append\<close> return with the open streams they were called with.
\<close>

lemma os_fopen_failed: "os_fopen w path mode = (None, w1) \<Longrightarrow> w1 = w"
  by (auto simp: os_fopen_def split: option.splits node.splits if_splits)

lemma os_fopen_opened:
  "os_fopen w path mode = (Some fp, w1) \<Longrightarrow> open_files w1 = fp # open_files w"
  by (auto simp: os_fopen_def split: option.splits node.splits if_splits)

lemma os_fwrite_open_files: "open_files (snd (os_fwrite w fp bytes)) = open_files w"
  by (simp add: os_fwrite_def split: option.splits node.splits)

lemma fs_write_to_file_ext_closes:
  "open_files (snd (fs_write_to_file_ext w path mode d)) = open_files w"
proof (cases "strstr path dotdot")
  case (Some i)
  then show ?thesis by (simp add: fs_write_to_file_ext_def)
next
  case None
  obtain r w1 where o: "os_fopen w path mode = (r, w1)"
    by (cases "os_fopen w path mode")
  show ?thesis
  proof (cases r)
    case None
    with o os_fopen_failed [of w path mode w1] \<open>strstr path dotdot = None\<close> show ?thesis
      by (simp add: fs_write_to_file_ext_def)
  next
    case (Some fp)
    with o os_fopen_opened [of w path mode fp w1] \<open>strstr path dotdot = None\<close> show ?thesis
      by (simp add: fs_write_to_file_ext_def Let_def os_fclose_def os_fwrite_open_files)
  qed
qed

lemma grows_open_files: "grows w w' \<Longrightarrow> open_files w' = open_files w"
  by (simp add: grows_def)

lemma fs_write_closes:
  assumes "fs_write st name d = Done (e, st')"
  shows "open_files (os st') = open_files (os st)"
proof (cases "fs_write_dir st = []")
  case True
  with assms show ?thesis by (simp add: fs_write_def)
next
  case False
  with assms obtain err buf where c: "fs_concat_path (fs_write_dir st) name = Done (err, buf)"
    by (cases "fs_concat_path (fs_write_dir st) name") (auto simp: fs_write_def)
  show ?thesis
  proof (cases "err = FS_ESUCCESS")
    case False
    with assms c \<open>fs_write_dir st \<noteq> []\<close> show ?thesis by (simp add: fs_write_def)
  next
    case True
    with assms c \<open>fs_write_dir st \<noteq> []\<close>
    have "os st' = snd (fs_write_to_file_ext (FS_CREATE_DIR_TREE (os st) buf) buf FS_MWRITE d)"
      by (auto simp: fs_write_def Let_def)
    then show ?thesis
      by (simp add: fs_write_to_file_ext_closes grows_open_files [OF FS_CREATE_DIR_TREE_grows])
  qed
qed

lemma fs_append_closes:
  assumes "fs_append st name d = Done (e, st')"
  shows "open_files (os st') = open_files (os st)"
proof (cases "fs_write_dir st = []")
  case True
  with assms show ?thesis by (simp add: fs_append_def)
next
  case False
  with assms obtain err buf where c: "fs_concat_path (fs_write_dir st) name = Done (err, buf)"
    by (cases "fs_concat_path (fs_write_dir st) name") (auto simp: fs_append_def)
  show ?thesis
  proof (cases "err = FS_ESUCCESS")
    case False
    with assms c \<open>fs_write_dir st \<noteq> []\<close> show ?thesis by (simp add: fs_append_def)
  next
    case True
    with assms c \<open>fs_write_dir st \<noteq> []\<close>
    have "os st' = snd (fs_write_to_file_ext (FS_CREATE_DIR_TREE (os st) buf) buf FS_MAPPEND d)"
      by (auto simp: fs_append_def Let_def)
    then show ?thesis
      by (simp add: fs_write_to_file_ext_closes grows_open_files [OF FS_CREATE_DIR_TREE_grows])
  qed
qed

text \<open>
  \<^verbatim>\<open>fs_read\<close> returns with the open streams it was called with on every path but one: when
  it has stored \<^verbatim>\<open>*size\<close> and returns \<^verbatim>\<open>NULL\<close>, the stream it opened is still open.
\<close>

lemma fs_read_streams:
  assumes "fs_read st name = Done ((b, n), st')"
  shows "if b = None \<and> n \<noteq> None
         then \<exists>fp. open_files (os st') = fp # open_files (os st)
         else open_files (os st') = open_files (os st)"
proof (cases "fs_check_search_path st name")
  case OutOfBounds
  with assms show ?thesis by (simp add: fs_read_def)
next
  case (Done r)
  show ?thesis
  proof (cases r)
    case (Inl err)
    with assms Done show ?thesis by (auto simp: fs_read_def)
  next
    case (Inr pf)
    obtain path fstat where pf: "pf = (path, fstat)" by (cases pf)
    obtain o1 w1 where o: "os_fopen (os st) path FS_MREAD = (o1, w1)"
      by (cases "os_fopen (os st) path FS_MREAD")
    show ?thesis
    proof (cases o1)
      case None
      with assms Done Inr pf o os_fopen_failed [of "os st" path FS_MREAD w1] show ?thesis
        by (auto simp: fs_read_def)
    next
      case (Some fp)
      from o Some os_fopen_opened [of "os st" path FS_MREAD fp w1]
      have op: "open_files w1 = fp # open_files (os st)" by simp
      with assms Done Inr pf o Some show ?thesis
        by (auto simp: fs_read_def FS_MALLOC_def os_fclose_def split: if_splits)
    qed
  qed
qed

text \<open>
  The raw write is the one place that tests for the traversal token: there a path that
  contains it is refused before the file is opened.
\<close>

lemma fs_write_to_file_ext_dotdot:
  "strstr path dotdot \<noteq> None \<Longrightarrow> fs_write_to_file_ext w path mode d = (FS_EWRITEFAIL, w)"
  by (simp add: fs_write_to_file_ext_def)

end
